theory Spec2Isabelle
  imports Main "HOL-Library.Sublist"
begin

section \<open>rip: reading a stream in parallel, chunk by chunk\<close>

text \<open>
  A shallow embedding of \<^verbatim>\<open>rip.go\<close>. Go byte slices and strings are \<open>string\<close>
  (lists of 8-bit characters), Go's \<open>int\<close> is \<open>int\<close> where a value may be negative
  (sizes taken from the configuration, the \<open>advance\<close> of a split function) and \<open>nat\<close>
  for lengths and indexes into a slice. A panic, a fault of the source and a blocked
  send are results of the model, never left out.
\<close>

subsection \<open>Errors\<close>

text \<open>
  The error values the code compares against (\<open>io.EOF\<close>, \<open>io.ErrUnexpectedEOF\<close>,
  \<open>bufio.ErrFinalToken\<close>), the errors \<open>bufio.Scanner\<close> and \<open>io.ReadAtLeast\<close> set, and
  \<open>Fault\<close> for every other error a source may report.
\<close>

datatype error =
    EOF
  | ErrUnexpectedEOF
  | ErrShortBuffer
  | ErrNoProgress
  | ErrTooLong
  | ErrNegativeAdvance
  | ErrAdvanceTooFar
  | ErrBadReadCount
  | ErrFinalToken
  | Fault string

subsection \<open>The configuration\<close>

text \<open>
  \<^verbatim>\<open>type ParallelReader struct\<close>. The channel \<open>chunks\<close> is kept as its capacity
  (the queue is empty and open when a read starts); the pool is created by each read
  and threaded through it.
\<close>

record ParallelReader =
  Concurrency :: int
  ChunkSize :: int
  ChunkBoundary :: string
  chunks_cap :: int

text \<open>
  \<^verbatim>\<open>NewParallelReader\<close>; the argument is what \<open>runtime.NumCPU()\<close> returns.
\<close>

definition NewParallelReader :: "int \<Rightarrow> ParallelReader" where
  "NewParallelReader numCPU =
     \<lparr> Concurrency = numCPU,
       ChunkSize = 65536,
       ChunkBoundary = [CHR 0x0A],
       chunks_cap = numCPU \<rparr>"

subsection \<open>\<open>bytes.LastIndex\<close>\<close>

text \<open>
  \<open>bytes.LastIndex(s, sep)\<close>: the index of the last instance of \<open>sep\<close> in \<open>s\<close>, or
  \<open>-1\<close> when there is none; for an empty \<open>sep\<close> it is \<open>len(s)\<close>. The search goes
  down from the last position where \<open>sep\<close> fits.
\<close>

primrec LastIndex_from :: "string \<Rightarrow> string \<Rightarrow> nat \<Rightarrow> int" where
  "LastIndex_from s sep 0 = (if take (length sep) s = sep then 0 else - 1)"
| "LastIndex_from s sep (Suc i) =
     (if take (length sep) (drop (Suc i) s) = sep then int (Suc i)
      else LastIndex_from s sep i)"

definition LastIndex :: "string \<Rightarrow> string \<Rightarrow> int" where
  "LastIndex s sep =
     (if length s < length sep then - 1
      else LastIndex_from s sep (length s - length sep))"

text \<open>
  What "the last occurrence of \<open>sep\<close> in \<open>s\<close> is at offset \<open>i\<close>" means, stated
  without the search: \<open>sep\<close> stands at \<open>i\<close>, and at no later offset.
\<close>

definition occurs_at :: "string \<Rightarrow> string \<Rightarrow> nat \<Rightarrow> bool" where
  "occurs_at s sep i \<longleftrightarrow> i + length sep \<le> length s \<and> take (length sep) (drop i s) = sep"

definition last_occurrence :: "string \<Rightarrow> string \<Rightarrow> nat \<Rightarrow> bool" where
  "last_occurrence s sep i \<longleftrightarrow>
     occurs_at s sep i \<and> (\<forall>j. i < j \<longrightarrow> \<not> occurs_at s sep j)"

subsection \<open>The split function\<close>

text \<open>
  \<^verbatim>\<open>ScanChunksWithBoundary(data, atEOF) (advance, token, err)\<close>. A nil token is
  \<open>None\<close>, a nil error is \<open>None\<close>.
\<close>

type_synonym split_result = "int \<times> string option \<times> error option"

definition ScanChunksWithBoundary ::
  "ParallelReader \<Rightarrow> string \<Rightarrow> bool \<Rightarrow> split_result" where
  "ScanChunksWithBoundary r data atEOF =
     (if \<not> atEOF \<and> int (length data) < ChunkSize r then (0, None, None)
      else
        let idx = LastIndex data (ChunkBoundary r) in
        if idx > - 1 then
          let boundaryEnd = idx + int (length (ChunkBoundary r)) in
          (boundaryEnd, Some (take (nat boundaryEnd) data), None)
        else if \<not> atEOF then (0, None, None)
        else (0, Some data, Some ErrFinalToken))"

subsection \<open>The byte source\<close>

text \<open>
  The \<open>io.Reader\<close> a read is given: the bytes it still holds, the sizes of its next
  reads (a source may deliver fewer bytes than it is asked for; entry \<open>m\<close> stands for
  a read of at most \<open>m + 1\<close> bytes, and with no entry left it fills what it is given),
  the error it reports once its bytes are spent (\<open>EOF\<close> for a clean end, any other
  error for a fault), and whether it reports that error already with its last bytes
  or only on the read after them: \<open>io.Reader\<close> allows both. \<open>strings.NewReader\<close>
  has no short reads and reports \<open>EOF\<close> on the read after the last bytes.
\<close>

record reader =
  remaining :: string
  reads :: "nat list"
  final :: error
  eager :: bool

definition reader_Read :: "reader \<Rightarrow> nat \<Rightarrow> (string \<times> error option) \<times> reader" where
  "reader_Read rd n =
     (if remaining rd = [] then (([], Some (final rd)), rd)
      else
        let k = (case reads rd of [] \<Rightarrow> n | m # _ \<Rightarrow> min n (Suc m)) in
        ((take k (remaining rd),
          if eager rd \<and> drop k (remaining rd) = [] then Some (final rd) else None),
         rd\<lparr>remaining := drop k (remaining rd), reads := tl (reads rd)\<rparr>))"

definition strings_NewReader :: "string \<Rightarrow> reader" where
  "strings_NewReader s = \<lparr> remaining = s, reads = [], final = EOF, eager = False \<rparr>"

subsection \<open>\<open>bufio.Scanner\<close>\<close>

text \<open>
  The scanner of Go's standard library, which \<open>Read\<close> drives with the split function
  above. Its buffer \<open>buf\<close> is kept as its length \<open>s_buflen\<close> and the unread part
  \<open>buf[start:end]\<close>, the window \<open>s_window\<close>; \<open>end\<close> is \<open>start\<close> plus the length of
  the window.
\<close>

record scanner =
  s_r :: reader
  s_maxTokenSize :: int
  s_token :: "string option"
  s_buflen :: nat
  s_start :: nat
  s_window :: string
  s_err :: "error option"
  s_empties :: nat
  s_done :: bool

definition s_end :: "scanner \<Rightarrow> nat" where
  "s_end s = s_start s + length (s_window s)"

definition MaxScanTokenSize :: int where
  "MaxScanTokenSize = 64 * 1024"

definition startBufSize :: int where
  "startBufSize = 4096"

definition maxConsecutiveEmptyReads :: nat where
  "maxConsecutiveEmptyReads = 100"

definition maxInt :: int where
  "maxInt = 2 ^ 63 - 1"

definition NewScanner :: "reader \<Rightarrow> scanner" where
  "NewScanner rd =
     \<lparr> s_r = rd, s_maxTokenSize = MaxScanTokenSize, s_token = None, s_buflen = 0,
       s_start = 0, s_window = [], s_err = None, s_empties = 0, s_done = False \<rparr>"

text \<open>\<open>Buffer(buf, max)\<close>, the buffer given by its capacity.\<close>

definition Buffer :: "scanner \<Rightarrow> nat \<Rightarrow> int \<Rightarrow> scanner" where
  "Buffer s n mx = s\<lparr>s_buflen := n, s_maxTokenSize := mx\<rparr>"

definition setErr :: "error \<Rightarrow> scanner \<Rightarrow> scanner" where
  "setErr e s = (if s_err s = None \<or> s_err s = Some EOF then s\<lparr>s_err := Some e\<rparr> else s)"

definition Err :: "scanner \<Rightarrow> error option" where
  "Err s = (if s_err s = Some EOF then None else s_err s)"

definition Bytes :: "scanner \<Rightarrow> string" where
  "Bytes s = (case s_token s of None \<Rightarrow> [] | Some t \<Rightarrow> t)"

definition advance :: "int \<Rightarrow> scanner \<Rightarrow> bool \<times> scanner" where
  "advance n s =
     (if n < 0 then (False, setErr ErrNegativeAdvance s)
      else if n > int (length (s_window s)) then (False, setErr ErrAdvanceTooFar s)
      else (True, s\<lparr>s_start := s_start s + nat n, s_window := drop (nat n) (s_window s)\<rparr>))"

text \<open>
  What a call of \<open>Scan\<close> ends with: it returns \<open>true\<close> or \<open>false\<close>, or it panics
  (too many empty tokens at the end of the input).
\<close>

datatype scan_result = Returns bool | Panics string

text \<open>
  One pass of the loop of \<open>Scan\<close>, in two parts. First the split function is tried
  on the window; \<open>Inl\<close> is a return of \<open>Scan\<close>, \<open>Inr\<close> goes on with the pass.
\<close>

definition scan_split ::
  "(string \<Rightarrow> bool \<Rightarrow> split_result) \<Rightarrow> scanner \<Rightarrow> (scan_result \<times> scanner) + scanner" where
  "scan_split split s =
     (if s_window s \<noteq> [] \<or> s_err s \<noteq> None then
        (case split (s_window s) (s_err s \<noteq> None) of
           (adv, tok, Some e) \<Rightarrow>
             if e = ErrFinalToken
             then Inl (Returns (tok \<noteq> None), s\<lparr>s_token := tok, s_done := True\<rparr>)
             else Inl (Returns False, setErr e s)
         | (adv, tok, None) \<Rightarrow>
             (case advance adv s of
                (False, s') \<Rightarrow> Inl (Returns False, s')
              | (True, s') \<Rightarrow>
                  if tok \<noteq> None then
                    (if s_err s' = None \<or> adv > 0
                     then Inl (Returns True, s'\<lparr>s_token := tok, s_empties := 0\<rparr>)
                     else if s_empties s' + 1 > maxConsecutiveEmptyReads
                     then Inl (Panics ''bufio.Scan: too many empty tokens without progressing'',
                               s'\<lparr>s_token := tok, s_empties := s_empties s' + 1\<rparr>)
                     else Inl (Returns True, s'\<lparr>s_token := tok, s_empties := s_empties s' + 1\<rparr>))
                  else Inr (s'\<lparr>s_token := tok\<rparr>)))
      else Inr s)"

text \<open>
  The inner loop that reads from the source into \<open>buf[end:len(buf)]\<close>, until a read
  brings bytes or an error, or too many reads in a row bring nothing.
\<close>

function read_more :: "nat \<Rightarrow> scanner \<Rightarrow> scanner" where
  "read_more loop s =
     (case reader_Read (s_r s) (s_buflen s - s_end s) of
        ((bytes, e), rd') \<Rightarrow>
          if s_buflen s - s_end s < length bytes then setErr ErrBadReadCount (s\<lparr>s_r := rd'\<rparr>)
          else
            let s1 = s\<lparr>s_r := rd', s_window := s_window s @ bytes\<rparr> in
            (case e of
               Some e' \<Rightarrow> setErr e' s1
             | None \<Rightarrow>
                 if length bytes > 0 then s1\<lparr>s_empties := 0\<rparr>
                 else if loop + 1 > maxConsecutiveEmptyReads then setErr ErrNoProgress s1
                 else read_more (loop + 1) s1))"
  by pat_completeness auto
termination
  by (relation "measure (\<lambda>(loop, s). Suc maxConsecutiveEmptyReads - loop)") auto

declare read_more.simps [simp del]

text \<open>
  The rest of the pass: with an error and no token \<open>Scan\<close> returns \<open>false\<close>;
  otherwise the window is moved to the front of the buffer when there is room to win,
  a full buffer is doubled up to \<open>maxTokenSize\<close> (\<open>ErrTooLong\<close> when it may not grow),
  and the source is read.
\<close>

definition scan_fill :: "scanner \<Rightarrow> (scan_result \<times> scanner) + scanner" where
  "scan_fill s =
     (if s_err s \<noteq> None then Inl (Returns False, s\<lparr>s_start := 0, s_window := []\<rparr>)
      else
        let s1 = (if s_start s > 0 \<and> (s_end s = s_buflen s \<or> s_start s > s_buflen s div 2)
                  then s\<lparr>s_start := 0\<rparr> else s) in
        if s_end s1 = s_buflen s1 then
          (if int (s_buflen s1) \<ge> s_maxTokenSize s1 \<or> int (s_buflen s1) > maxInt div 2
           then Inl (Returns False, setErr ErrTooLong s1)
           else
             let newSize = int (s_buflen s1) * 2;
                 newSize = (if newSize = 0 then startBufSize else newSize);
                 newSize = min newSize (s_maxTokenSize s1)
             in Inr (read_more 0 (s1\<lparr>s_buflen := nat newSize, s_start := 0\<rparr>)))
        else Inr (read_more 0 s1))"

lemma reader_Read_remaining:
  "reader_Read rd n = ((bytes, e), rd') \<Longrightarrow> bytes @ remaining rd' = remaining rd"
  by (auto simp: reader_Read_def Let_def split: if_splits)

lemma reader_Read_final:
  "reader_Read rd n = ((bytes, e), rd') \<Longrightarrow> final rd' = final rd"
  by (auto simp: reader_Read_def Let_def split: if_splits)

lemma reader_Read_error:
  "reader_Read rd n = ((bytes, Some e'), rd') \<Longrightarrow>
   bytes = remaining rd \<and> remaining rd' = [] \<and> e' = final rd"
  by (auto simp: reader_Read_def Let_def split: if_splits)

lemma reader_Read_length:
  "reader_Read rd n = ((bytes, e), rd') \<Longrightarrow> length bytes \<le> n"
  by (auto simp: reader_Read_def Let_def split: if_splits list.splits)

lemma reader_Read_progress:
  "reader_Read rd n = ((bytes, None), rd') \<Longrightarrow> 0 < n \<Longrightarrow> bytes \<noteq> []"
  by (auto simp: reader_Read_def Let_def split: if_splits list.splits)

text \<open>
  The loop of \<open>Scan\<close> ends: a pass that does not return has read from the source, and
  the read either brought bytes or set the error, after which the next pass returns.
\<close>

definition scan_rank :: "scanner \<Rightarrow> nat" where
  "scan_rank s = (if s_err s = None then Suc (length (remaining (s_r s))) else 0)"

lemma setErr_rank: "scan_rank (setErr e s) = 0"
  by (simp add: setErr_def scan_rank_def)

lemma read_more_rank:
  "s_err s = None \<Longrightarrow> scan_rank (read_more loop s) < scan_rank s"
proof (induction loop s rule: read_more.induct)
  case (1 loop s)
  obtain bytes e rd' where rd: "reader_Read (s_r s) (s_buflen s - s_end s) = ((bytes, e), rd')"
    by (metis prod.exhaust)
  have rem: "bytes @ remaining rd' = remaining (s_r s)"
    using rd by (rule reader_Read_remaining)
  have pos: "0 < scan_rank s" using "1.prems" by (simp add: scan_rank_def)
  show ?case
  proof (cases "s_buflen s - s_end s < length bytes")
    case True
    then show ?thesis using rd pos by (subst read_more.simps) (simp add: setErr_rank)
  next
    case fits: False
    show ?thesis
    proof (cases e)
      case (Some e')
      then show ?thesis using rd pos fits
        by (subst read_more.simps) (simp add: setErr_rank Let_def)
    next
      case None
      show ?thesis
      proof (cases "length bytes > 0")
        case True
        have "length (remaining rd') < length (remaining (s_r s))"
          using rem [symmetric] True by simp
        then show ?thesis using rd fits None True "1.prems"
          by (subst read_more.simps) (simp add: Let_def scan_rank_def)
      next
        case empty: False
        show ?thesis
        proof (cases "loop + 1 > maxConsecutiveEmptyReads")
          case True
          then show ?thesis using rd pos fits None empty
            by (subst read_more.simps) (simp add: setErr_rank Let_def)
        next
          case False
          let ?s1 = "s\<lparr>s_r := rd', s_window := s_window s @ bytes\<rparr>"
          have "scan_rank (read_more (loop + 1) ?s1) < scan_rank ?s1"
            using "1.IH" [OF rd [symmetric] refl fits refl None] empty False "1.prems"
            by simp
          moreover have "scan_rank ?s1 = scan_rank s"
            using rem empty "1.prems" by (simp add: scan_rank_def)
          ultimately show ?thesis using rd fits None empty False
            by (subst read_more.simps) (simp add: Let_def)
        qed
      qed
    qed
  qed
qed

lemma scan_split_Inr:
  "scan_split split s = Inr s1 \<Longrightarrow>
   s_r s1 = s_r s \<and> s_err s1 = s_err s \<and> s_done s1 = s_done s"
  by (auto simp: scan_split_def advance_def setErr_def
      split: if_splits prod.splits option.splits bool.splits)

lemma scan_fill_Inr:
  "scan_fill s1 = Inr s2 \<Longrightarrow> scan_rank s2 < scan_rank s1"
proof -
  assume a: "scan_fill s1 = Inr s2"
  then have e: "s_err s1 = None" by (auto simp: scan_fill_def split: if_splits)
  from a obtain s' where s2: "s2 = read_more 0 s'"
    and s': "s_err s' = None" "s_r s' = s_r s1"
    using e by (auto simp: scan_fill_def Let_def split: if_splits)
  have "scan_rank (read_more 0 s') < scan_rank s'" using s'(1) by (rule read_more_rank)
  moreover have "scan_rank s' = scan_rank s1" using s' e by (simp add: scan_rank_def)
  ultimately show ?thesis using s2 by simp
qed

function Scan_loop ::
  "(string \<Rightarrow> bool \<Rightarrow> split_result) \<Rightarrow> scanner \<Rightarrow> scan_result \<times> scanner" where
  "Scan_loop split s =
     (case scan_split split s of
        Inl res \<Rightarrow> res
      | Inr s1 \<Rightarrow>
          (case scan_fill s1 of
             Inl res \<Rightarrow> res
           | Inr s2 \<Rightarrow> Scan_loop split s2))"
  by pat_completeness auto
termination
proof (relation "measure (\<lambda>(split, s). scan_rank s)")
  show "wf (measure (\<lambda>(split, s). scan_rank s))" by simp
next
  fix split :: "string \<Rightarrow> bool \<Rightarrow> split_result" and s s1 s2
  assume a: "scan_split split s = Inr s1" and b: "scan_fill s1 = Inr s2"
  have "scan_rank s2 < scan_rank s1" using b by (rule scan_fill_Inr)
  moreover have "scan_rank s1 = scan_rank s"
    using scan_split_Inr [OF a] by (simp add: scan_rank_def)
  ultimately show "((split, s2), (split, s)) \<in> measure (\<lambda>(split, s). scan_rank s)" by simp
qed

declare Scan_loop.simps [simp del]

text \<open>\<open>Scan\<close>: nothing more once the final token was delivered.\<close>

definition Scan ::
  "(string \<Rightarrow> bool \<Rightarrow> split_result) \<Rightarrow> scanner \<Rightarrow> scan_result \<times> scanner" where
  "Scan split s = (if s_done s then (Returns False, s) else Scan_loop split s)"

subsection \<open>Panics and blocked sends\<close>

text \<open>
  How a call can end other than by returning: \<open>panic(err)\<close>, a panic of the runtime
  or the library (with its message), or a send on the queue that nobody will ever
  receive.
\<close>

datatype abort = Panic_err error | Panic_msg string | Blocked

text \<open>\<open>make([]byte, n)\<close>: \<open>n\<close> zero bytes; a negative length panics.\<close>

definition make_bytes :: "int \<Rightarrow> abort + string" where
  "make_bytes n =
     (if n < 0 then Inl (Panic_msg ''makeslice: len out of range'')
      else Inr (replicate (nat n) (CHR 0x00)))"

text \<open>\<open>copy(dst, src)\<close>: the number of bytes copied, and \<open>dst\<close> afterwards.\<close>

definition copy_bytes :: "string \<Rightarrow> string \<Rightarrow> nat \<times> string" where
  "copy_bytes dst src =
     (let n = min (length dst) (length src) in (n, take n src @ drop n dst))"

subsection \<open>Chunks and the pool of buffers\<close>

record chunk =
  readableSize :: nat
  buffer :: string

definition ReadableBytes :: "chunk \<Rightarrow> string" where
  "ReadableBytes c = take (readableSize c) (buffer c)"

text \<open>
  \<^verbatim>\<open>type Pool struct\<close>: the buffered channel \<open>pool\<close> is the list of the buffers it
  holds, oldest first, with its capacity \<open>pool_cap\<close>.
\<close>

record Pool =
  pool :: "string list"
  pool_cap :: nat
  bufferSize :: int

text \<open>\<open>make(chan []byte, max)\<close> panics on a negative size.\<close>

definition NewPool :: "int \<Rightarrow> int \<Rightarrow> abort + Pool" where
  "NewPool mx bsize =
     (if mx < 0 then Inl (Panic_msg ''makechan: size out of range'')
      else Inr \<lparr> pool = [], pool_cap = nat mx, bufferSize = bsize \<rparr>)"

text \<open>
  \<open>Borrow\<close>: the \<open>select\<close> receives from the channel when it holds a buffer, and
  otherwise takes the \<open>default\<close> case and makes a new one.
\<close>

definition Borrow :: "Pool \<Rightarrow> abort + (string \<times> Pool)" where
  "Borrow p =
     (case pool p of
        c # cs \<Rightarrow> Inr (c, p\<lparr>pool := cs\<rparr>)
      | [] \<Rightarrow>
          (case make_bytes (bufferSize p) of
             Inl a \<Rightarrow> Inl a
           | Inr c \<Rightarrow> Inr (c, p)))"

text \<open>
  \<open>Return\<close>: the \<open>select\<close> sends when the channel has room, and otherwise takes the
  empty \<open>default\<close> case.
\<close>

definition Return :: "Pool \<Rightarrow> string \<Rightarrow> Pool" where
  "Return p c = (if length (pool p) < pool_cap p then p\<lparr>pool := pool p @ [c]\<rparr> else p)"

subsection \<open>The queue and the workers\<close>

text \<open>
  The state of one call of \<open>Read\<close> or \<open>ReadFixed\<close>: the pool, the chunks waiting in
  the queue \<open>r.chunks\<close>, and the arguments the callback has been called with.

  The reading loop is the only sender on the queue, so the chunks and their order are
  fixed by the input. The workers are modelled by one schedule: with a worker
  (\<open>Concurrency > 0\<close>) a chunk is received as soon as it is sent, the callback runs on
  its \<open>ReadableBytes\<close> and the buffer goes back to the pool. With no worker a chunk
  stays in the queue, and a send on a full queue blocks for ever. In a real run the
  callbacks happen in any order; \<open>calls\<close> lists them in the order of the sends.
\<close>

record run_state =
  run_pool :: Pool
  queue :: "chunk list"
  calls :: "string list"

definition send :: "ParallelReader \<Rightarrow> chunk \<Rightarrow> run_state \<Rightarrow> run_state option" where
  "send r c st =
     (if Concurrency r > 0 then
        Some (st\<lparr>calls := calls st @ [ReadableBytes c],
                 run_pool := Return (run_pool st) (buffer c)\<rparr>)
      else if int (length (queue st)) < chunks_cap r then Some (st\<lparr>queue := queue st @ [c]\<rparr>)
      else None)"

subsection \<open>\<open>Read\<close>\<close>

text \<open>
  When does the loop of \<open>Read\<close> end? A call of \<open>Scan\<close> that returns \<open>true\<close> has
  delivered the final token, or consumed bytes, or (at the end of the input) counted
  one more empty token; \<open>read_rank\<close> goes down each time. The split function must not
  return a token without consuming anything while input is left.
\<close>

definition unread :: "scanner \<Rightarrow> nat" where
  "unread s = length (s_window s) + length (remaining (s_r s))"

definition read_rank :: "scanner \<Rightarrow> nat" where
  "read_rank s =
     (if s_done s then 0
      else Suc (unread s * 103 +
                (if s_err s = None then 102 else Suc maxConsecutiveEmptyReads - s_empties s)))"

definition progress :: "(string \<Rightarrow> bool \<Rightarrow> split_result) \<Rightarrow> bool" where
  "progress split \<longleftrightarrow>
     (\<forall>data adv tok. data \<noteq> [] \<longrightarrow> split data False = (adv, Some tok, None) \<longrightarrow> 0 < adv)"

section \<open>Facts about \<open>bytes.LastIndex\<close>\<close>

lemma LastIndex_from_range: "- 1 \<le> LastIndex_from s sep n \<and> LastIndex_from s sep n \<le> int n"
  by (induction n) auto

lemma LastIndex_from_found:
  "0 \<le> LastIndex_from s sep n \<Longrightarrow>
   take (length sep) (drop (nat (LastIndex_from s sep n)) s) = sep"
proof (induction n)
  case 0
  then show ?case by (auto split: if_splits)
next
  case (Suc n)
  have "nat (1 + int n) = Suc n" by simp
  with Suc show ?case by (auto split: if_splits)
qed

lemma LastIndex_from_last:
  "LastIndex_from s sep n < int j \<Longrightarrow> j \<le> n \<Longrightarrow> take (length sep) (drop j s) \<noteq> sep"
proof (induction n)
  case 0
  then show ?case by (auto split: if_splits)
next
  case (Suc n)
  show ?case
  proof (cases "j = Suc n")
    case True
    with Suc.prems show ?thesis by (auto split: if_splits)
  next
    case False
    with Suc.prems have "j \<le> n" by simp
    moreover from Suc.prems have "LastIndex_from s sep n < int j"
      by (auto split: if_splits)
    ultimately show ?thesis using Suc.IH by simp
  qed
qed

lemma LastIndex_ge: "- 1 \<le> LastIndex s sep"
  using LastIndex_from_range [of s sep] by (simp add: LastIndex_def)

lemma LastIndex_le:
  assumes "0 \<le> LastIndex s sep"
  shows "LastIndex s sep + int (length sep) \<le> int (length s)"
proof -
  from assms have "\<not> length s < length sep"
    by (auto simp: LastIndex_def split: if_splits)
  then show ?thesis
    using LastIndex_from_range [of s sep "length s - length sep"]
    by (simp add: LastIndex_def)
qed

lemma LastIndex_occurs:
  assumes "0 \<le> LastIndex s sep"
  shows "occurs_at s sep (nat (LastIndex s sep))"
proof -
  from assms have fit: "\<not> length s < length sep"
    by (auto simp: LastIndex_def split: if_splits)
  then have eq: "LastIndex s sep = LastIndex_from s sep (length s - length sep)"
    by (simp add: LastIndex_def)
  have "nat (LastIndex s sep) + length sep \<le> length s"
    using LastIndex_le [OF assms] assms by linarith
  moreover have "take (length sep) (drop (nat (LastIndex s sep)) s) = sep"
    using LastIndex_from_found [of s sep "length s - length sep"] assms eq by simp
  ultimately show ?thesis by (simp add: occurs_at_def)
qed

lemma LastIndex_no_later:
  assumes "LastIndex s sep < int j"
  shows "\<not> occurs_at s sep j"
proof
  assume occ: "occurs_at s sep j"
  then have fit: "j + length sep \<le> length s" and at: "take (length sep) (drop j s) = sep"
    by (simp_all add: occurs_at_def)
  from fit have "\<not> length s < length sep" by simp
  then have eq: "LastIndex s sep = LastIndex_from s sep (length s - length sep)"
    by (simp add: LastIndex_def)
  from fit have "j \<le> length s - length sep" by simp
  with assms eq have "take (length sep) (drop j s) \<noteq> sep"
    using LastIndex_from_last [of s sep "length s - length sep" j] by simp
  with at show False by simp
qed

lemma LastIndex_last_occurrence:
  "last_occurrence s sep i \<longleftrightarrow> LastIndex s sep = int i"
proof
  assume lo: "last_occurrence s sep i"
  then have occ: "occurs_at s sep i" and later: "\<And>j. i < j \<Longrightarrow> \<not> occurs_at s sep j"
    by (simp_all add: last_occurrence_def)
  have "\<not> LastIndex s sep < int i"
    using LastIndex_no_later [of s sep i] occ by blast
  moreover have "\<not> int i < LastIndex s sep"
  proof
    assume gt: "int i < LastIndex s sep"
    then have "0 \<le> LastIndex s sep" by simp
    then have "occurs_at s sep (nat (LastIndex s sep))" by (rule LastIndex_occurs)
    moreover from gt have "i < nat (LastIndex s sep)" by simp
    ultimately show False using later by blast
  qed
  ultimately show "LastIndex s sep = int i" by simp
next
  assume eq: "LastIndex s sep = int i"
  then have "occurs_at s sep i" using LastIndex_occurs [of s sep] by simp
  moreover have "\<And>j. i < j \<Longrightarrow> \<not> occurs_at s sep j"
    using LastIndex_no_later [of s sep] eq by simp
  ultimately show "last_occurrence s sep i" by (simp add: last_occurrence_def)
qed

section \<open>The loop of \<open>Read\<close> ends\<close>

lemma LastIndex_from_empty: "LastIndex_from s [] n = int n"
  by (cases n) simp_all

lemma LastIndex_empty: "LastIndex s [] = int (length s)"
  by (simp add: LastIndex_def LastIndex_from_empty)

lemma ScanChunksWithBoundary_progress: "progress (ScanChunksWithBoundary r)"
  unfolding progress_def
proof (intro allI impI)
  fix data :: string and adv tok
  assume ne: "data \<noteq> []" and eq: "ScanChunksWithBoundary r data False = (adv, Some tok, None)"
  from eq have idx: "0 \<le> LastIndex data (ChunkBoundary r)"
    and adv: "adv = LastIndex data (ChunkBoundary r) + int (length (ChunkBoundary r))"
    by (auto simp: ScanChunksWithBoundary_def Let_def split: if_splits)
  show "0 < adv"
  proof (rule ccontr)
    assume "\<not> 0 < adv"
    with idx adv have z: "LastIndex data (ChunkBoundary r) = 0"
      and "length (ChunkBoundary r) = 0" by linarith+
    then have "LastIndex data [] = 0" by simp
    with LastIndex_empty [of data] ne show False by simp
  qed
qed

lemma read_more_unread:
  "unread (read_more loop s) \<le> unread s \<and> s_done (read_more loop s) = s_done s"
proof (induction loop s rule: read_more.induct)
  case (1 loop s)
  obtain bytes e rd' where rd: "reader_Read (s_r s) (s_buflen s - s_end s) = ((bytes, e), rd')"
    by (metis prod.exhaust)
  have rem: "bytes @ remaining rd' = remaining (s_r s)"
    using rd by (rule reader_Read_remaining)
  then have len: "length bytes + length (remaining rd') = length (remaining (s_r s))"
    by (metis length_append)
  show ?case
  proof (cases "s_buflen s - s_end s < length bytes \<or> e \<noteq> None \<or> length bytes > 0
                \<or> loop + 1 > maxConsecutiveEmptyReads")
    case True
    then show ?thesis using rd len
      by (subst (1 2) read_more.simps)
         (auto simp: Let_def unread_def setErr_def split: option.splits)
  next
    case False
    let ?s1 = "s\<lparr>s_r := rd', s_window := s_window s @ bytes\<rparr>"
    from False have f: "\<not> s_buflen s - s_end s < length bytes" "e = None" "\<not> length bytes > 0"
      "\<not> loop + 1 > maxConsecutiveEmptyReads" by auto
    have ih: "unread (read_more (loop + 1) ?s1) \<le> unread ?s1
              \<and> s_done (read_more (loop + 1) ?s1) = s_done ?s1"
      using "1.IH" [OF rd [symmetric] refl f(1) refl f(2) f(3) f(4)] .
    have "unread ?s1 = unread s" using len by (simp add: unread_def)
    with ih show ?thesis using rd f
      by (subst (1 2) read_more.simps) (simp add: Let_def)
  qed
qed

lemma read_more_read_rank:
  assumes "s_err s = None"
  shows "read_rank (read_more loop s) \<le> read_rank s"
proof -
  have "unread (read_more loop s) \<le> unread s" and "s_done (read_more loop s) = s_done s"
    using read_more_unread [of loop s] by simp_all
  then show ?thesis using assms
    by (auto simp: read_rank_def maxConsecutiveEmptyReads_def)
qed

lemma scan_fill_read_rank:
  assumes "scan_fill s1 = Inr s2"
  shows "read_rank s2 \<le> read_rank s1 \<and> s_done s2 = s_done s1"
proof -
  from assms have e: "s_err s1 = None" by (auto simp: scan_fill_def split: if_splits)
  from assms e obtain s' where s2: "s2 = read_more 0 s'"
    and s': "s_err s' = None" "s_r s' = s_r s1" "s_window s' = s_window s1" "s_done s' = s_done s1"
    by (auto simp: scan_fill_def Let_def split: if_splits)
  have "read_rank (read_more 0 s') \<le> read_rank s'" using s'(1) by (rule read_more_read_rank)
  moreover have "read_rank s' = read_rank s1" using s' e by (simp add: read_rank_def unread_def)
  moreover have "s_done (read_more 0 s') = s_done s'" using read_more_unread by simp
  ultimately show ?thesis using s2 s'(4) by simp
qed

lemma scan_fill_Inl: "scan_fill s1 = Inl (res, s') \<Longrightarrow> res = Returns False"
  by (auto simp: scan_fill_def Let_def split: if_splits)

lemma scan_split_read_rank_Inr:
  assumes "scan_split split s = Inr s1"
  shows "read_rank s1 \<le> read_rank s \<and> s_done s1 = s_done s"
  using assms
  by (auto simp: scan_split_def advance_def read_rank_def unread_def
      split: if_splits prod.splits option.splits bool.splits)

lemma scan_split_read_rank_Inl:
  assumes "scan_split split s = Inl (Returns True, s')" and "\<not> s_done s" and "progress split"
  shows "read_rank s' < read_rank s"
proof -
  obtain adv tok e where sp: "split (s_window s) (s_err s \<noteq> None) = (adv, tok, e)"
    by (metis prod.exhaust)
  from assms(1) have go: "s_window s \<noteq> [] \<or> s_err s \<noteq> None"
    by (auto simp: scan_split_def split: if_splits)
  show ?thesis
  proof (cases e)
    case (Some e')
    with assms(1) sp go have "s_done s'"
      by (auto simp: scan_split_def split: if_splits)
    then show ?thesis using assms(2) by (simp add: read_rank_def)
  next
    case None
    with assms(1) sp go obtain t where tok: "tok = Some t"
      and adv: "0 \<le> adv" "adv \<le> int (length (s_window s))"
      by (auto simp: scan_split_def advance_def split: if_splits)
    let ?s1 = "s\<lparr>s_start := s_start s + nat adv, s_window := drop (nat adv) (s_window s)\<rparr>"
    have a1: "advance adv s = (True, ?s1)" using adv by (simp add: advance_def)
    show ?thesis
    proof (cases "s_err s = None \<or> adv > 0")
      case True
      have pos: "0 < adv"
      proof (cases "s_err s = None")
        case True
        with go sp None tok assms(3) show ?thesis by (auto simp: progress_def)
      next
        case False
        with True show ?thesis by simp
      qed
      from True assms(1) sp go None tok a1
      have s': "s' = ?s1\<lparr>s_token := tok, s_empties := 0\<rparr>"
        by (auto simp: scan_split_def)
      have "unread s' < unread s" using pos adv by (simp add: s' unread_def)
      then show ?thesis using assms(2)
        by (auto simp: s' read_rank_def maxConsecutiveEmptyReads_def)
    next
      case False
      then have z: "adv = 0" and er: "s_err s \<noteq> None" using adv by auto
      from False assms(1) sp go None tok a1
      have s': "s' = ?s1\<lparr>s_token := tok, s_empties := s_empties s + 1\<rparr>"
        and le: "\<not> s_empties s + 1 > maxConsecutiveEmptyReads"
        by (auto simp: scan_split_def split: if_splits)
      show ?thesis using assms(2) er le z
        by (auto simp: s' read_rank_def unread_def)
    qed
  qed
qed

lemma Scan_loop_read_rank:
  "Scan_loop split s = (Returns True, s') \<Longrightarrow> \<not> s_done s \<Longrightarrow> progress split \<Longrightarrow>
   read_rank s' < read_rank s"
proof (induction split s rule: Scan_loop.induct)
  case (1 split s)
  show ?case
  proof (cases "scan_split split s")
    case (Inl res)
    with "1.prems"(1) have "scan_split split s = Inl (Returns True, s')"
      by (simp add: Scan_loop.simps)
    then show ?thesis using "1.prems"(2,3) by (rule scan_split_read_rank_Inl)
  next
    case (Inr s1)
    note r1 = scan_split_read_rank_Inr [OF Inr]
    show ?thesis
    proof (cases "scan_fill s1")
      case (Inl res)
      with Inr "1.prems"(1) have "scan_fill s1 = Inl (Returns True, s')"
        by (simp add: Scan_loop.simps)
      then show ?thesis using scan_fill_Inl by blast
    next
      case inr2: (Inr s2)
      note r2 = scan_fill_read_rank [OF inr2]
      from Inr inr2 "1.prems"(1) have "Scan_loop split s2 = (Returns True, s')"
        by (simp add: Scan_loop.simps)
      moreover have "\<not> s_done s2" using r1 r2 "1.prems"(2) by simp
      ultimately have "read_rank s' < read_rank s2"
        using "1.IH" [OF Inr inr2] "1.prems"(3) by simp
      then show ?thesis using r1 r2 by simp
    qed
  qed
qed

lemma Scan_read_rank:
  "Scan split s = (Returns True, s') \<Longrightarrow> progress split \<Longrightarrow> read_rank s' < read_rank s"
  using Scan_loop_read_rank [of split s s']
  by (auto simp: Scan_def split: if_splits)

lemma Read_loop_rank:
  "(res, sc') = Scan (ScanChunksWithBoundary r) sc \<Longrightarrow> res = Returns True \<Longrightarrow>
   read_rank sc' < read_rank sc"
  using Scan_read_rank [of "ScanChunksWithBoundary r" sc sc'] ScanChunksWithBoundary_progress
  by simp

text \<open>
  The loop \<^verbatim>\<open>for scanner.Scan() { ... }\<close> of \<open>Read\<close> with what follows it: the
  check of \<open>scanner.Err()\<close>, then the queue is closed and the workers are awaited.
  The result is how the call ended (\<open>None\<close>: it returned) and the state it left.
\<close>

function Read_loop ::
  "ParallelReader \<Rightarrow> scanner \<Rightarrow> run_state \<Rightarrow> abort option \<times> run_state" where
  "Read_loop r sc st =
     (case Scan (ScanChunksWithBoundary r) sc of
        (Panics m, sc') \<Rightarrow> (Some (Panic_msg m), st)
      | (Returns False, sc') \<Rightarrow>
          (case Err sc' of
             Some e \<Rightarrow> (Some (Panic_err e), st)
           | None \<Rightarrow> (None, st))
      | (Returns True, sc') \<Rightarrow>
          (case Borrow (run_pool st) of
             Inl a \<Rightarrow> (Some a, st)
           | Inr (buf, p') \<Rightarrow>
               if length (Bytes sc') > 0 then
                 (case copy_bytes buf (Bytes sc') of
                    (n, buf') \<Rightarrow>
                      (case send r \<lparr>readableSize = n, buffer = buf'\<rparr> (st\<lparr>run_pool := p'\<rparr>) of
                         None \<Rightarrow> (Some Blocked, st\<lparr>run_pool := p'\<rparr>)
                       | Some st' \<Rightarrow> Read_loop r sc' st'))
               else Read_loop r sc' (st\<lparr>run_pool := p'\<rparr>)))"
  by pat_completeness auto
termination
  by (relation "measure (\<lambda>(r, sc, st). read_rank sc)") (auto intro: Read_loop_rank)

declare Read_loop.simps [simp del]

text \<open>
  \<open>Read\<close>: the pool and the scanner's buffer are made (a negative \<open>Concurrency\<close> or
  \<open>ChunkSize\<close> panics there), the scanner gets the buffer of \<open>ChunkSize\<close> bytes with
  \<open>ChunkSize\<close> as its largest token, and the loop runs.
\<close>

definition Read :: "ParallelReader \<Rightarrow> reader \<Rightarrow> abort option \<times> run_state" where
  "Read r stream =
     (case NewPool (Concurrency r) (ChunkSize r) of
        Inl a \<Rightarrow> (Some a, \<lparr> run_pool = \<lparr> pool = [], pool_cap = 0, bufferSize = ChunkSize r \<rparr>,
                            queue = [], calls = [] \<rparr>)
      | Inr p \<Rightarrow>
          (case make_bytes (ChunkSize r) of
             Inl a \<Rightarrow> (Some a, \<lparr> run_pool = p, queue = [], calls = [] \<rparr>)
           | Inr scanBuf \<Rightarrow>
               Read_loop r (Buffer (NewScanner stream) (length scanBuf) (ChunkSize r))
                 \<lparr> run_pool = p, queue = [], calls = [] \<rparr>))"

subsection \<open>\<open>ReadFixed\<close>\<close>

text \<open>
  \<open>io.ReadFull(r, buf)\<close>, that is \<open>io.ReadAtLeast(r, buf, len(buf))\<close>: the source is
  read into \<open>buf[n:]\<close> until the buffer is full or a read reports an error. The
  result is the number of bytes read, the error, the buffer and the source afterwards.
\<close>

lemma reader_Read_rank:
  assumes "((bytes, e), rd') = reader_Read rd k" and "0 < k"
  shows "(if e = None then Suc (length (remaining rd')) else 0) < Suc (length (remaining rd))"
proof (cases e)
  case None
  with assms have "bytes \<noteq> []" using reader_Read_progress [of rd k bytes rd'] by simp
  moreover have "bytes @ remaining rd' = remaining rd"
    using assms(1) reader_Read_remaining [of rd k bytes e rd'] by simp
  ultimately have "length (remaining rd') < length (remaining rd)"
    by (metis length_append length_greater_0_conv less_add_same_cancel2)
  with None show ?thesis by simp
next
  case (Some e')
  then show ?thesis by simp
qed

function ReadFull_loop ::
  "reader \<Rightarrow> string \<Rightarrow> nat \<Rightarrow> error option \<Rightarrow> nat \<times> error option \<times> string \<times> reader" where
  "ReadFull_loop rd buf n err =
     (if n < length buf \<and> err = None then
        (case reader_Read rd (length buf - n) of
           ((bytes, e), rd') \<Rightarrow>
             ReadFull_loop rd' (take n buf @ bytes @ drop (n + length bytes) buf)
               (n + length bytes) e)
      else (n, err, buf, rd))"
  by pat_completeness auto
termination
  by (relation "measure (\<lambda>(rd, buf, n, err).
         if err = None then Suc (length (remaining rd)) else 0)")
     (auto dest: reader_Read_rank)

declare ReadFull_loop.simps [simp del]

definition ReadFull :: "reader \<Rightarrow> string \<Rightarrow> nat \<times> error option \<times> string \<times> reader" where
  "ReadFull rd buf =
     (case ReadFull_loop rd buf 0 None of
        (n, err, buf', rd') \<Rightarrow>
          if n \<ge> length buf then (n, None, buf', rd')
          else if n > 0 \<and> err = Some EOF then (n, Some ErrUnexpectedEOF, buf', rd')
          else (n, err, buf', rd'))"

text \<open>
  The loop of \<open>ReadFixed\<close>. It need not end (with \<open>ChunkSize = 0\<close> every pass reads
  a full buffer of no bytes), so the result is an option: \<open>None\<close> when it runs for
  ever.
\<close>

partial_function (option) ReadFixed_loop ::
  "ParallelReader \<Rightarrow> reader \<Rightarrow> run_state \<Rightarrow> (abort option \<times> run_state) option" where
  "ReadFixed_loop r stream st =
     (case Borrow (run_pool st) of
        Inl a \<Rightarrow> Some (Some a, st)
      | Inr (buf, p') \<Rightarrow>
          (case ReadFull stream buf of
             (actualReadSize, err, buf', stream') \<Rightarrow>
               (case err of
                  None \<Rightarrow>
                    (case send r \<lparr>readableSize = actualReadSize, buffer = buf'\<rparr>
                            (st\<lparr>run_pool := p'\<rparr>) of
                       None \<Rightarrow> Some (Some Blocked, st\<lparr>run_pool := p'\<rparr>)
                     | Some st' \<Rightarrow> ReadFixed_loop r stream' st')
                | Some e \<Rightarrow>
                    if e = ErrUnexpectedEOF then
                      (case send r \<lparr>readableSize = actualReadSize, buffer = buf'\<rparr>
                              (st\<lparr>run_pool := p'\<rparr>) of
                         None \<Rightarrow> Some (Some Blocked, st\<lparr>run_pool := p'\<rparr>)
                       | Some st' \<Rightarrow> Some (None, st'))
                    else if e = EOF then Some (None, st\<lparr>run_pool := p'\<rparr>)
                    else Some (Some (Panic_err e), st\<lparr>run_pool := p'\<rparr>))))"

definition ReadFixed ::
  "ParallelReader \<Rightarrow> reader \<Rightarrow> (abort option \<times> run_state) option" where
  "ReadFixed r stream =
     (case NewPool (Concurrency r) (ChunkSize r) of
        Inl a \<Rightarrow> Some (Some a, \<lparr> run_pool = \<lparr> pool = [], pool_cap = 0, bufferSize = ChunkSize r \<rparr>,
                                  queue = [], calls = [] \<rparr>)
      | Inr p \<Rightarrow> ReadFixed_loop r stream \<lparr> run_pool = p, queue = [], calls = [] \<rparr>)"

section \<open>What the scanner keeps\<close>

text \<open>
  The scanner \<open>Read\<close> sets up has a buffer of \<open>C\<close> bytes that may not grow, and its
  window lies inside the buffer.
\<close>

definition wf_scanner :: "nat \<Rightarrow> scanner \<Rightarrow> bool" where
  "wf_scanner C s \<longleftrightarrow> s_end s \<le> s_buflen s \<and> s_buflen s = C \<and> s_maxTokenSize s = int C"

lemma setErr_fields [simp]:
  "s_r (setErr e s) = s_r s" "s_window (setErr e s) = s_window s"
  "s_start (setErr e s) = s_start s" "s_buflen (setErr e s) = s_buflen s"
  "s_maxTokenSize (setErr e s) = s_maxTokenSize s" "s_done (setErr e s) = s_done s"
  "s_token (setErr e s) = s_token s" "s_empties (setErr e s) = s_empties s"
  by (simp_all add: setErr_def)

lemma setErr_wf [simp]: "wf_scanner C (setErr e s) = wf_scanner C s"
  by (simp add: wf_scanner_def s_end_def)

lemma read_more_wf: "wf_scanner C s \<Longrightarrow> wf_scanner C (read_more loop s)"
proof (induction loop s rule: read_more.induct)
  case (1 loop s)
  obtain bytes e rd' where rd: "reader_Read (s_r s) (s_buflen s - s_end s) = ((bytes, e), rd')"
    by (metis prod.exhaust)
  have len: "length bytes \<le> s_buflen s - s_end s" using rd by (rule reader_Read_length)
  let ?s1 = "s\<lparr>s_r := rd', s_window := s_window s @ bytes\<rparr>"
  have wf1: "wf_scanner C ?s1" using "1.prems" len by (auto simp: wf_scanner_def s_end_def)
  show ?case
  proof (cases "e \<noteq> None \<or> length bytes > 0 \<or> loop + 1 > maxConsecutiveEmptyReads")
    case True
    then show ?thesis using rd len wf1
      by (subst read_more.simps) (auto simp: Let_def wf_scanner_def s_end_def split: option.splits)
  next
    case False
    then have f: "\<not> s_buflen s - s_end s < length bytes" "e = None" "\<not> length bytes > 0"
      "\<not> loop + 1 > maxConsecutiveEmptyReads" using len by auto
    have "wf_scanner C (read_more (loop + 1) ?s1)"
      using "1.IH" [OF rd [symmetric] refl f(1) refl f(2) f(3) f(4)] wf1 .
    then show ?thesis using rd f by (subst read_more.simps) (simp add: Let_def)
  qed
qed

lemma scan_fill_wf:
  assumes "wf_scanner C s"
  shows "(scan_fill s = Inr s2 \<longrightarrow> wf_scanner C s2) \<and>
         (scan_fill s = Inl (res, s') \<longrightarrow> wf_scanner C s')"
proof -
  let ?s1 = "if s_start s > 0 \<and> (s_end s = s_buflen s \<or> s_start s > s_buflen s div 2)
             then s\<lparr>s_start := 0\<rparr> else s"
  have wf1: "wf_scanner C ?s1" using assms by (auto simp: wf_scanner_def s_end_def)
  have cut: "wf_scanner C (s\<lparr>s_start := 0, s_window := []\<rparr>)"
    using assms by (simp add: wf_scanner_def s_end_def)
  have full: "s_end ?s1 = s_buflen ?s1 \<Longrightarrow>
      int (s_buflen ?s1) \<ge> s_maxTokenSize ?s1 \<or> int (s_buflen ?s1) > maxInt div 2"
    using wf1 by (simp add: wf_scanner_def)
  show ?thesis
  proof (cases "s_err s \<noteq> None")
    case True
    then show ?thesis using cut by (auto simp: scan_fill_def)
  next
    case False
    show ?thesis
    proof (cases "s_end ?s1 = s_buflen ?s1")
      case True
      with full have "scan_fill s = Inl (Returns False, setErr ErrTooLong ?s1)"
        using False unfolding scan_fill_def Let_def by (simp split: if_splits)
      then show ?thesis using wf1 by auto
    next
      case nf: False
      then have "scan_fill s = Inr (read_more 0 ?s1)"
        using False unfolding scan_fill_def Let_def by (simp split: if_splits)
      then show ?thesis using read_more_wf [OF wf1] by auto
    qed
  qed
qed

lemma scan_split_wf:
  assumes "wf_scanner C s"
  shows "(scan_split split s = Inr s1 \<longrightarrow> wf_scanner C s1) \<and>
         (scan_split split s = Inl (res, s') \<longrightarrow> wf_scanner C s')"
  using assms
  by (auto simp: scan_split_def advance_def wf_scanner_def s_end_def
      split: if_splits prod.splits option.splits bool.splits)

lemma scan_split_token:
  assumes "wf_scanner C s" and "scan_split split s = Inl (Returns True, s')"
  shows "\<exists>data atEOF adv e t. length data \<le> C \<and> split data atEOF = (adv, Some t, e) \<and>
           s_token s' = Some t"
proof -
  obtain adv tok e where sp: "split (s_window s) (s_err s \<noteq> None) = (adv, tok, e)"
    by (metis prod.exhaust)
  have len: "length (s_window s) \<le> C" using assms(1) by (simp add: wf_scanner_def s_end_def)
  from assms(2) sp obtain t where "tok = Some t" and "s_token s' = Some t"
    by (auto simp: scan_split_def advance_def split: if_splits option.splits)
  with sp len show ?thesis by blast
qed

lemma Scan_loop_wf:
  "wf_scanner C s \<Longrightarrow> Scan_loop split s = (res, s') \<Longrightarrow>
   wf_scanner C s' \<and>
   (res = Returns True \<longrightarrow>
      (\<exists>data atEOF adv e t. length data \<le> C \<and> split data atEOF = (adv, Some t, e) \<and>
          s_token s' = Some t))"
proof (induction split s rule: Scan_loop.induct)
  case (1 split s)
  show ?case
  proof (cases "scan_split split s")
    case (Inl r1)
    with "1.prems"(2) have eq: "scan_split split s = Inl (res, s')"
      by (simp add: Scan_loop.simps)
    then have "wf_scanner C s'" using scan_split_wf [OF "1.prems"(1)] by blast
    moreover have "res = Returns True \<longrightarrow>
      (\<exists>data atEOF adv e t. length data \<le> C \<and> split data atEOF = (adv, Some t, e) \<and>
          s_token s' = Some t)"
      using scan_split_token [OF "1.prems"(1)] eq by blast
    ultimately show ?thesis by simp
  next
    case (Inr s1)
    then have wf1: "wf_scanner C s1" using scan_split_wf [OF "1.prems"(1)] by blast
    show ?thesis
    proof (cases "scan_fill s1")
      case (Inl r2)
      with Inr "1.prems"(2) have eq: "scan_fill s1 = Inl (res, s')"
        by (simp add: Scan_loop.simps)
      then have "wf_scanner C s'" using scan_fill_wf [OF wf1] by blast
      moreover have "res = Returns False" using eq by (rule scan_fill_Inl)
      ultimately show ?thesis by simp
    next
      case inr2: (Inr s2)
      then have wf2: "wf_scanner C s2" using scan_fill_wf [OF wf1] by blast
      from Inr inr2 "1.prems"(2) have "Scan_loop split s2 = (res, s')"
        by (simp add: Scan_loop.simps)
      then show ?thesis using "1.IH" [OF Inr inr2 wf2] by simp
    qed
  qed
qed

lemma Scan_wf:
  "wf_scanner C s \<Longrightarrow> Scan split s = (res, s') \<Longrightarrow> wf_scanner C s'"
  using Scan_loop_wf [of C s split res s'] by (auto simp: Scan_def split: if_splits)

lemma Scan_token:
  "wf_scanner C s \<Longrightarrow> Scan split s = (Returns True, s') \<Longrightarrow>
   \<exists>data atEOF adv e t. length data \<le> C \<and> split data atEOF = (adv, Some t, e) \<and>
      s_token s' = Some t"
  using Scan_loop_wf [of C s split "Returns True" s'] by (auto simp: Scan_def split: if_splits)

section \<open>What one call of \<open>Scan\<close> does with the split function of \<open>Read\<close>\<close>

text \<open>The bytes not yet handed out: the window, then what the source still holds.\<close>

definition ahead :: "scanner \<Rightarrow> string" where
  "ahead s = s_window s @ remaining (s_r s)"

text \<open>A clean end of the input was seen only when the source was empty.\<close>

definition eof_ok :: "scanner \<Rightarrow> bool" where
  "eof_ok s \<longleftrightarrow> (s_err s = Some EOF \<longrightarrow> remaining (s_r s) = [])"

lemma split_cases:
  assumes "ScanChunksWithBoundary r data atEOF = (adv, tok, e)"
  shows "(\<not> atEOF \<and> adv = 0 \<and> tok = None \<and> e = None) \<or>
         (\<exists>i. LastIndex data (ChunkBoundary r) = int i \<and>
              i + length (ChunkBoundary r) \<le> length data \<and>
              adv = int (i + length (ChunkBoundary r)) \<and>
              tok = Some (take (i + length (ChunkBoundary r)) data) \<and> e = None) \<or>
         (atEOF \<and> LastIndex data (ChunkBoundary r) = - 1 \<and> adv = 0 \<and> tok = Some data \<and>
          e = Some ErrFinalToken)"
proof (cases "0 \<le> LastIndex data (ChunkBoundary r)")
  case True
  then obtain i where i: "LastIndex data (ChunkBoundary r) = int i"
    using nonneg_int_cases by blast
  have "int i + int (length (ChunkBoundary r)) \<le> int (length data)"
    using LastIndex_le [OF True] i by simp
  then have le: "i + length (ChunkBoundary r) \<le> length data" by linarith
  have "nat (int i + int (length (ChunkBoundary r))) = i + length (ChunkBoundary r)" by simp
  with assms i le show ?thesis
    by (auto simp: ScanChunksWithBoundary_def Let_def split: if_splits)
next
  case False
  then have "LastIndex data (ChunkBoundary r) = - 1" using LastIndex_ge [of data "ChunkBoundary r"]
    by linarith
  with assms show ?thesis
    by (auto simp: ScanChunksWithBoundary_def Let_def split: if_splits)
qed

lemma take_boundary_suffix:
  assumes "LastIndex data b = int i"
  shows "suffix b (take (i + length b) data)"
proof -
  have "occurs_at data b i" using LastIndex_occurs [of data b] assms by simp
  then have "take (length b) (drop i data) = b" by (simp add: occurs_at_def)
  then have "take (i + length b) data = take i data @ b" by (simp add: take_add)
  then show ?thesis by (simp add: suffix_def)
qed

lemma read_more_ahead:
  "s_err s = None \<Longrightarrow>
   ahead (read_more loop s) = ahead s \<and> eof_ok (read_more loop s)"
proof (induction loop s rule: read_more.induct)
  case (1 loop s)
  obtain bytes e rd' where rd: "reader_Read (s_r s) (s_buflen s - s_end s) = ((bytes, e), rd')"
    by (metis prod.exhaust)
  have rem: "bytes @ remaining rd' = remaining (s_r s)"
    using rd by (rule reader_Read_remaining)
  have fits: "\<not> s_buflen s - s_end s < length bytes"
    using reader_Read_length [OF rd] by simp
  let ?s1 = "s\<lparr>s_r := rd', s_window := s_window s @ bytes\<rparr>"
  have a1: "ahead ?s1 = ahead s" using rem by (simp add: ahead_def)
  show ?case
  proof (cases e)
    case (Some e')
    then have "remaining rd' = []" using reader_Read_error rd by fastforce
    then show ?thesis using rd fits Some a1 "1.prems"
      by (subst (1 2) read_more.simps) (simp add: Let_def ahead_def eof_ok_def setErr_def)
  next
    case None
    show ?thesis
    proof (cases "length bytes > 0 \<or> loop + 1 > maxConsecutiveEmptyReads")
      case True
      then show ?thesis using rd fits None a1 "1.prems"
        by (subst (1 2) read_more.simps) (auto simp: Let_def ahead_def eof_ok_def setErr_def)
    next
      case False
      then have f: "\<not> length bytes > 0" "\<not> loop + 1 > maxConsecutiveEmptyReads" by auto
      have "ahead (read_more (loop + 1) ?s1) = ahead ?s1 \<and> eof_ok (read_more (loop + 1) ?s1)"
        using "1.IH" [OF rd [symmetric] refl fits refl None f(1) f(2)] "1.prems" by simp
      then show ?thesis using rd fits None f a1
        by (subst (1 2) read_more.simps) (simp add: Let_def)
    qed
  qed
qed

lemma scan_fill_ahead:
  assumes "scan_fill s1 = Inr s2"
  shows "ahead s2 = ahead s1 \<and> eof_ok s2"
proof -
  from assms have e: "s_err s1 = None" by (auto simp: scan_fill_def split: if_splits)
  from assms e obtain s' where s2: "s2 = read_more 0 s'"
    and s': "s_err s' = None" "s_r s' = s_r s1" "s_window s' = s_window s1"
    by (auto simp: scan_fill_def Let_def split: if_splits)
  have "ahead (read_more 0 s') = ahead s' \<and> eof_ok (read_more 0 s')"
    using s'(1) by (rule read_more_ahead)
  moreover have "ahead s' = ahead s1" using s' by (simp add: ahead_def)
  ultimately show ?thesis using s2 by simp
qed

lemma scan_fill_failed:
  assumes "scan_fill s1 = Inl (res, s')" and "s_err s1 = None"
  shows "res = Returns False \<and> Err s' \<noteq> None"
  using assms by (auto simp: scan_fill_def Let_def Err_def setErr_def split: if_splits)

lemma scan_split_source_Inr:
  assumes "scan_split (ScanChunksWithBoundary r) s = Inr s1"
  shows "s_err s = None \<and> s_err s1 = None \<and> s_window s1 = s_window s \<and> s_r s1 = s_r s
         \<and> s_done s1 = s_done s"
proof (cases "s_window s \<noteq> [] \<or> s_err s \<noteq> None")
  case False
  with assms show ?thesis by (simp add: scan_split_def)
next
  case True
  obtain adv tok e where
    sp: "ScanChunksWithBoundary r (s_window s) (s_err s \<noteq> None) = (adv, tok, e)"
    by (metis prod.exhaust)
  from split_cases [OF sp] show ?thesis
  proof (elim disjE exE conjE)
    assume "\<not> s_err s \<noteq> None" "adv = 0" "tok = None" "e = None"
    with assms True sp show ?thesis by (auto simp: scan_split_def advance_def)
  next
    fix i
    assume "i + length (ChunkBoundary r) \<le> length (s_window s)"
      "adv = int (i + length (ChunkBoundary r))"
      "tok = Some (take (i + length (ChunkBoundary r)) (s_window s))" "e = None"
    with assms True sp show ?thesis
      by (simp add: scan_split_def advance_def split: if_splits)
  next
    assume "tok = Some (s_window s)" "e = Some ErrFinalToken"
    with assms True sp show ?thesis by (simp add: scan_split_def)
  qed
qed

lemma scan_split_source_Inl:
  assumes "scan_split (ScanChunksWithBoundary r) s = Inl (res, s')" and "eof_ok s"
  shows "res \<noteq> Returns False \<and>
         (res = Returns True \<longrightarrow>
            (\<exists>t. s_token s' = Some t \<and> eof_ok s' \<and> s_r s' = s_r s \<and>
                 ((s_done s' = s_done s \<and> s_window s = t @ s_window s' \<and>
                   suffix (ChunkBoundary r) t) \<or>
                  (s_done s' \<and> s_err s' \<noteq> None \<and> s_window s = t \<and>
                   LastIndex t (ChunkBoundary r) = - 1))))"
proof -
  from assms(1) have go: "s_window s \<noteq> [] \<or> s_err s \<noteq> None"
    by (auto simp: scan_split_def split: if_splits)
  obtain adv tok e where
    sp: "ScanChunksWithBoundary r (s_window s) (s_err s \<noteq> None) = (adv, tok, e)"
    by (metis prod.exhaust)
  from split_cases [OF sp] show ?thesis
  proof (elim disjE exE conjE)
    assume "\<not> s_err s \<noteq> None" "adv = 0" "tok = None" "e = None"
    with assms go sp show ?thesis by (simp add: scan_split_def advance_def)
  next
    fix i
    assume i: "LastIndex (s_window s) (ChunkBoundary r) = int i"
      and le: "i + length (ChunkBoundary r) \<le> length (s_window s)"
      and adv: "adv = int (i + length (ChunkBoundary r))"
      and tok: "tok = Some (take (i + length (ChunkBoundary r)) (s_window s))" and e: "e = None"
    let ?n = "i + length (ChunkBoundary r)"
    let ?s1 = "s\<lparr>s_start := s_start s + ?n, s_window := drop ?n (s_window s)\<rparr>"
    have "nat (int i + int (length (ChunkBoundary r))) = ?n" by simp
    then have a1: "advance adv s = (True, ?s1)" using adv le by (simp add: advance_def)
    have suf: "suffix (ChunkBoundary r) (take ?n (s_window s))"
      using i by (rule take_boundary_suffix)
    from assms(1) go sp adv tok e a1
    have "res \<noteq> Returns False \<and> (res = Returns True \<longrightarrow>
            s_token s' = tok \<and> s_r s' = s_r s \<and> s_err s' = s_err s \<and> s_done s' = s_done s \<and>
            s_window s' = drop ?n (s_window s))"
      by (auto simp: scan_split_def split: if_splits)
    then show ?thesis using tok suf assms(2) by (auto simp: eof_ok_def)
  next
    assume eof: "s_err s \<noteq> None" and none: "LastIndex (s_window s) (ChunkBoundary r) = - 1"
      and tok: "tok = Some (s_window s)" and e: "e = Some ErrFinalToken"
    from assms(1) go sp tok e
    have "res = Returns True" and "s' = s\<lparr>s_token := tok, s_done := True\<rparr>"
      by (auto simp: scan_split_def)
    then show ?thesis using tok eof none assms(2) by (auto simp: eof_ok_def)
  qed
qed

lemma Scan_loop_source:
  "eof_ok s \<Longrightarrow> Scan_loop (ScanChunksWithBoundary r) s = (res, s') \<Longrightarrow>
   (res = Returns False \<longrightarrow> Err s' \<noteq> None) \<and>
   (res = Returns True \<longrightarrow>
      (\<exists>t. s_token s' = Some t \<and> eof_ok s' \<and>
           ((s_done s' = s_done s \<and> ahead s = t @ ahead s' \<and> suffix (ChunkBoundary r) t) \<or>
            (s_done s' \<and> s_err s' \<noteq> None \<and> ahead s = t @ remaining (s_r s') \<and>
             LastIndex t (ChunkBoundary r) = - 1))))"
proof (induction "ScanChunksWithBoundary r" s rule: Scan_loop.induct)
  case (1 s)
  show ?case
  proof (cases "scan_split (ScanChunksWithBoundary r) s")
    case (Inl r1)
    with "1.prems"(2) have eq: "scan_split (ScanChunksWithBoundary r) s = Inl (res, s')"
      by (simp add: Scan_loop.simps)
    from scan_split_source_Inl [OF eq "1.prems"(1)] show ?thesis
      by (auto simp: ahead_def)
  next
    case (Inr s1)
    note k1 = scan_split_source_Inr [OF Inr]
    show ?thesis
    proof (cases "scan_fill s1")
      case (Inl r2)
      with Inr "1.prems"(2) have eq: "scan_fill s1 = Inl (res, s')"
        by (simp add: Scan_loop.simps)
      from scan_fill_failed [OF eq] k1 show ?thesis by simp
    next
      case inr2: (Inr s2)
      note k2 = scan_fill_ahead [OF inr2]
      have d2: "s_done s2 = s_done s1" using scan_fill_read_rank [OF inr2] by simp
      from Inr inr2 "1.prems"(2) have run: "Scan_loop (ScanChunksWithBoundary r) s2 = (res, s')"
        by (simp add: Scan_loop.simps)
      have "ahead s2 = ahead s" using k1 k2 by (simp add: ahead_def)
      moreover have "s_done s2 = s_done s" using k1 d2 by simp
      ultimately show ?thesis using "1.hyps" [OF Inr inr2] k2 run by simp
    qed
  qed
qed

section \<open>What \<open>Read\<close> sends\<close>

text \<open>
  The chunks sent on the queue so far, in the order of the sends: those a worker has
  passed to the callback, then those still in the queue.
\<close>

definition sent :: "run_state \<Rightarrow> string list" where
  "sent st = calls st @ map ReadableBytes (queue st)"

text \<open>Every buffer of the pool has the pool's buffer size.\<close>

definition pool_ok :: "nat \<Rightarrow> Pool \<Rightarrow> bool" where
  "pool_ok C p \<longleftrightarrow> bufferSize p = int C \<and> (\<forall>b \<in> set (pool p). length b = C)"

text \<open>
  What the chunks of one read look like: none is empty or longer than \<open>C\<close>, each ends
  with the boundary or holds no boundary at all, and only the last may be of the
  second kind.
\<close>

definition chunks_ok :: "nat \<Rightarrow> string \<Rightarrow> string list \<Rightarrow> bool" where
  "chunks_ok C b ts \<longleftrightarrow>
     (\<forall>t \<in> set ts. t \<noteq> [] \<and> length t \<le> C \<and> (suffix b t \<or> LastIndex t b = - 1)) \<and>
     (\<forall>t \<in> set (butlast ts). suffix b t)"

lemma Borrow_ok:
  assumes "pool_ok C p"
  shows "\<exists>buf p'. Borrow p = Inr (buf, p') \<and> length buf = C \<and> pool_ok C p'"
  using assms
  by (cases "pool p") (auto simp: Borrow_def pool_ok_def make_bytes_def)

lemma Return_ok: "pool_ok C p \<Longrightarrow> length b = C \<Longrightarrow> pool_ok C (Return p b)"
  by (auto simp: Return_def pool_ok_def)

lemma copy_bytes_fits:
  assumes "length t \<le> length buf"
  shows "copy_bytes buf t = (length t, t @ drop (length t) buf)"
  using assms by (simp add: copy_bytes_def Let_def min_def)

text \<open>With a worker nothing waits in the queue.\<close>

definition queue_ok :: "ParallelReader \<Rightarrow> run_state \<Rightarrow> bool" where
  "queue_ok r st \<longleftrightarrow> (0 < Concurrency r \<longrightarrow> queue st = [])"

lemma send_sent:
  assumes "send r c st = Some st'" and "queue_ok r st"
  shows "sent st' = sent st @ [ReadableBytes c]" and "queue_ok r st'"
    and "pool_ok C (run_pool st) \<Longrightarrow> length (buffer c) = C \<Longrightarrow> pool_ok C (run_pool st')"
  using assms by (auto simp: send_def sent_def queue_ok_def Return_ok split: if_splits)

lemma Read_loop_done:
  "s_done sc \<Longrightarrow>
   Read_loop r sc st =
     (case Err sc of Some e \<Rightarrow> (Some (Panic_err e), st) | None \<Rightarrow> (None, st))"
  by (simp add: Read_loop.simps Scan_def)

lemma source_token_length:
  "ScanChunksWithBoundary r data atEOF = (adv, Some t, e) \<Longrightarrow> length t \<le> length data"
  using split_cases [of r data atEOF adv "Some t" e] by auto

lemma chunks_ok_Nil: "chunks_ok C b []"
  by (simp add: chunks_ok_def)

lemma chunks_ok_last:
  "t \<noteq> [] \<Longrightarrow> length t \<le> C \<Longrightarrow> LastIndex t b = - 1 \<Longrightarrow> chunks_ok C b [t]"
  by (simp add: chunks_ok_def)

lemma chunks_ok_Cons:
  "t \<noteq> [] \<Longrightarrow> length t \<le> C \<Longrightarrow> suffix b t \<Longrightarrow> chunks_ok C b ts \<Longrightarrow> chunks_ok C b (t # ts)"
  by (auto simp: chunks_ok_def)

lemma Read_loop_sent:
  "wf_scanner C sc \<Longrightarrow> pool_ok C (run_pool st) \<Longrightarrow> eof_ok sc \<Longrightarrow> \<not> s_done sc \<Longrightarrow>
   Read_loop r sc st = (out, st') \<Longrightarrow> queue_ok r st \<Longrightarrow>
   \<exists>ts. sent st' = sent st @ ts \<and> chunks_ok C (ChunkBoundary r) ts \<and>
        prefix (concat ts) (ahead sc) \<and> (out = None \<longrightarrow> concat ts = ahead sc)"
proof (induction "read_rank sc" arbitrary: sc st rule: less_induct)
  case less
  let ?S = "ScanChunksWithBoundary r"
  let ?b = "ChunkBoundary r"
  obtain res sc' where sc: "Scan ?S sc = (res, sc')" by (metis prod.exhaust)
  then have loop: "Scan_loop ?S sc = (res, sc')" using less.prems(4) by (simp add: Scan_def)
  note facts = Scan_loop_source [OF less.prems(3) loop]
  have wf': "wf_scanner C sc'" using less.prems(1) sc by (rule Scan_wf)
  have stop: "\<exists>ts. sent st1 = sent st @ ts \<and> chunks_ok C ?b ts \<and>
        prefix (concat ts) (ahead sc) \<and> (out1 = None \<longrightarrow> concat ts = ahead sc)"
    if "sent st1 = sent st" and "out1 \<noteq> None" for st1 out1
    using that chunks_ok_Nil [of C ?b] by (intro exI [of _ "[]"]) auto
  show ?case
  proof (cases res)
    case (Panics m)
    with sc less.prems(5) have a: "out = Some (Panic_msg m)" "st' = st"
      by (simp_all add: Read_loop.simps [of r sc st])
    show ?thesis by (rule stop) (simp_all add: a)
  next
    case (Returns b)
    show ?thesis
    proof (cases b)
      case False
      with Returns facts obtain e where "Err sc' = Some e" by auto
      with sc Returns False less.prems(5) have a: "out = Some (Panic_err e)" "st' = st"
        by (simp_all add: Read_loop.simps [of r sc st])
      show ?thesis by (rule stop) (simp_all add: a)
    next
      case True
      with Returns sc have scT: "Scan ?S sc = (Returns True, sc')" by simp
      from facts Returns True obtain t where tok: "s_token sc' = Some t" and eof': "eof_ok sc'"
        and kinds: "(s_done sc' = s_done sc \<and> ahead sc = t @ ahead sc' \<and> suffix ?b t) \<or>
            (s_done sc' \<and> s_err sc' \<noteq> None \<and> ahead sc = t @ remaining (s_r sc') \<and>
             LastIndex t ?b = - 1)"
        by auto
      from Scan_token [OF less.prems(1) scT] tok
      obtain data atEOF adv e where "length data \<le> C" "?S data atEOF = (adv, Some t, e)"
        by auto
      then have lt: "length t \<le> C" using source_token_length by fastforce
      have bytes: "Bytes sc' = t" using tok by (simp add: Bytes_def)
      from Borrow_ok [OF less.prems(2)] obtain buf p' where
        bor: "Borrow (run_pool st) = Inr (buf, p')" and lbuf: "length buf = C"
        and pok: "pool_ok C p'" by blast
      let ?st1 = "st\<lparr>run_pool := p'\<rparr>"
      let ?c = "\<lparr>readableSize = length t, buffer = t @ drop (length t) buf\<rparr>"
      have cp: "copy_bytes buf t = (length t, t @ drop (length t) buf)"
        using lt lbuf by (simp add: copy_bytes_fits)
      have rb: "ReadableBytes ?c = t" by (simp add: ReadableBytes_def)
      have lc: "length (buffer ?c) = C" using lt lbuf by simp
      have rank: "read_rank sc' < read_rank sc"
        using scT ScanChunksWithBoundary_progress by (rule Scan_read_rank)
      text \<open>What the rest of the loop adds, whichever state it starts from.\<close>
      have rest: "\<exists>ts. sent st' = sent st @ ts \<and> chunks_ok C ?b ts \<and>
            prefix (concat ts) (ahead sc) \<and> (out = None \<longrightarrow> concat ts = ahead sc)"
        if run: "Read_loop r sc' st2 = (out, st')" and pok2: "pool_ok C (run_pool st2)"
          and q2: "queue_ok r st2"
          and s2: "sent st2 = sent st @ (if t = [] then [] else [t])" for st2
      proof (cases "s_done sc'")
        case True
        with kinds less.prems(4) have fin: "s_err sc' \<noteq> None"
          "ahead sc = t @ remaining (s_r sc')" "LastIndex t ?b = - 1" by auto
        from run True have o: "out = (case Err sc' of Some e \<Rightarrow> Some (Panic_err e) | None \<Rightarrow> None)"
          and st: "st' = st2" by (auto simp: Read_loop_done split: option.splits)
        have "out = None \<longrightarrow> remaining (s_r sc') = []"
          using o fin(1) eof' by (auto simp: Err_def eof_ok_def split: if_splits option.splits)
        then have all: "out = None \<longrightarrow> ahead sc = t" using fin(2) by simp
        show ?thesis
        proof (cases "t = []")
          case True
          then show ?thesis using st s2 all chunks_ok_Nil [of C ?b]
            by (intro exI [of _ "[]"]) simp
        next
          case False
          then show ?thesis using st s2 all fin(2) lt chunks_ok_last [OF False lt fin(3)]
            by (intro exI [of _ "[t]"]) simp
        qed
      next
        case False
        with kinds have mid: "ahead sc = t @ ahead sc'" "suffix ?b t" by auto
        from less.hyps [OF rank wf' pok2 eof' False run q2]
        obtain ts where ts: "sent st' = sent st2 @ ts" "chunks_ok C ?b ts"
          "prefix (concat ts) (ahead sc')" "out = None \<longrightarrow> concat ts = ahead sc'" by blast
        show ?thesis
        proof (cases "t = []")
          case True
          then show ?thesis using ts s2 mid by (intro exI [of _ ts]) simp
        next
          case False
          have "chunks_ok C ?b (t # ts)" using False lt mid(2) ts(2) by (rule chunks_ok_Cons)
          then show ?thesis using ts s2 mid False by (intro exI [of _ "t # ts"]) simp
        qed
      qed
      show ?thesis
      proof (cases "t = []")
        case True
        with scT bor bytes less.prems(5) have "Read_loop r sc' ?st1 = (out, st')"
          by (simp add: Read_loop.simps [of r sc st])
        moreover have "pool_ok C (run_pool ?st1)" using pok by simp
        moreover have "queue_ok r ?st1" using less.prems(6) by (simp add: queue_ok_def)
        moreover have "sent ?st1 = sent st @ (if t = [] then [] else [t])"
          using True by (simp add: sent_def)
        ultimately show ?thesis by (rule rest)
      next
        case False
        show ?thesis
        proof (cases "send r ?c ?st1")
          case None
          with scT bor bytes cp False less.prems(5)
          have a: "out = Some Blocked" "st' = ?st1"
            by (simp_all add: Read_loop.simps [of r sc st])
          show ?thesis by (rule stop) (simp_all add: a sent_def)
        next
          case (Some st2)
          have q1: "queue_ok r ?st1" using less.prems(6) by (simp add: queue_ok_def)
          from Some scT bor bytes cp False less.prems(5) have "Read_loop r sc' st2 = (out, st')"
            by (simp add: Read_loop.simps [of r sc st])
          moreover have "pool_ok C (run_pool st2)"
            using send_sent(3) [OF Some q1] pok lc by simp
          moreover have "queue_ok r st2" using send_sent(2) [OF Some q1] .
          moreover have "sent st2 = sent st @ (if t = [] then [] else [t])"
            using send_sent(1) [OF Some q1] rb False by (simp add: sent_def)
          ultimately show ?thesis by (rule rest)
        qed
      qed
    qed
  qed
qed

lemma Read_loop_queue_ok:
  "Read_loop r sc st = (out, st') \<Longrightarrow> queue_ok r st \<Longrightarrow> queue_ok r st'"
proof (induction "read_rank sc" arbitrary: sc st rule: less_induct)
  case less
  let ?S = "ScanChunksWithBoundary r"
  obtain res sc' where sc: "Scan ?S sc = (res, sc')" by (metis prod.exhaust)
  show ?case
  proof (cases "res = Returns True")
    case False
    with sc less.prems show ?thesis
      by (auto simp: Read_loop.simps [of r sc st] split: scan_result.splits option.splits)
  next
    case True
    with sc have rank: "read_rank sc' < read_rank sc"
      using ScanChunksWithBoundary_progress Scan_read_rank by blast
    show ?thesis
    proof (cases "Borrow (run_pool st)")
      case (Inl a)
      with sc True less.prems show ?thesis by (simp add: Read_loop.simps [of r sc st])
    next
      case (Inr bp)
      obtain buf p' where bp: "bp = (buf, p')" by (metis prod.exhaust)
      let ?st1 = "st\<lparr>run_pool := p'\<rparr>"
      have q1: "queue_ok r ?st1" using less.prems(2) by (simp add: queue_ok_def)
      obtain n buf' where cp: "copy_bytes buf (Bytes sc') = (n, buf')" by (metis prod.exhaust)
      show ?thesis
      proof (cases "length (Bytes sc') > 0")
        case False
        with sc True Inr bp less.prems(1) have "Read_loop r sc' ?st1 = (out, st')"
          by (simp add: Read_loop.simps [of r sc st])
        then show ?thesis using q1 by (rule less.hyps [OF rank])
      next
        case pos: True
        show ?thesis
        proof (cases "send r \<lparr>readableSize = n, buffer = buf'\<rparr> ?st1")
          case None
          with sc True Inr bp cp pos less.prems(1) have "st' = ?st1"
            by (simp add: Read_loop.simps [of r sc st])
          then show ?thesis using q1 by simp
        next
          case (Some st2)
          with sc True Inr bp cp pos less.prems(1) have "Read_loop r sc' st2 = (out, st')"
            by (simp add: Read_loop.simps [of r sc st])
          moreover have "queue_ok r st2" using send_sent(2) [OF Some q1] .
          ultimately show ?thesis by (rule less.hyps [OF rank])
        qed
      qed
    qed
  qed
qed

text \<open>The scanner and the state \<open>Read\<close> starts its loop with.\<close>

lemma Read_start:
  assumes "0 \<le> Concurrency r" and "0 \<le> ChunkSize r"
  shows "Read r stream =
           Read_loop r (Buffer (NewScanner stream) (nat (ChunkSize r)) (ChunkSize r))
             \<lparr> run_pool = \<lparr> pool = [], pool_cap = nat (Concurrency r),
                             bufferSize = ChunkSize r \<rparr>,
               queue = [], calls = [] \<rparr>"
  using assms by (simp add: Read_def NewPool_def make_bytes_def)

lemma Read_no_start:
  assumes "\<not> (0 \<le> Concurrency r \<and> 0 \<le> ChunkSize r)" and "Read r stream = (out, st')"
  shows "out \<noteq> None \<and> sent st' = [] \<and> calls st' = []"
  using assms by (auto simp: Read_def NewPool_def make_bytes_def sent_def split: if_splits)

text \<open>
  Everything the later theorems about \<open>Read\<close> rest on: what was sent is made of
  well-formed chunks and is a prefix of the input, all of the input when \<open>Read\<close>
  returns; with a worker each chunk sent has reached the callback.
\<close>

lemma Read_sent:
  assumes "Read r stream = (out, st')"
  shows "chunks_ok (nat (ChunkSize r)) (ChunkBoundary r) (sent st') \<and>
         prefix (concat (sent st')) (remaining stream) \<and>
         (out = None \<longrightarrow> concat (sent st') = remaining stream) \<and>
         (0 < Concurrency r \<longrightarrow> calls st' = sent st')"
proof (cases "0 \<le> Concurrency r \<and> 0 \<le> ChunkSize r")
  case False
  from Read_no_start [OF False assms] show ?thesis by (auto simp: chunks_ok_Nil)
next
  case True
  let ?C = "nat (ChunkSize r)"
  let ?sc = "Buffer (NewScanner stream) ?C (ChunkSize r)"
  let ?st = "\<lparr> run_pool = \<lparr> pool = [], pool_cap = nat (Concurrency r), bufferSize = ChunkSize r \<rparr>,
               queue = [], calls = [] \<rparr>"
  have run: "Read_loop r ?sc ?st = (out, st')" using assms True by (simp add: Read_start)
  have wf: "wf_scanner ?C ?sc" using True
    by (simp add: wf_scanner_def Buffer_def NewScanner_def s_end_def)
  have pok: "pool_ok ?C (run_pool ?st)" using True by (simp add: pool_ok_def)
  have eof: "eof_ok ?sc" by (simp add: eof_ok_def Buffer_def NewScanner_def)
  have nd: "\<not> s_done ?sc" by (simp add: Buffer_def NewScanner_def)
  have q: "queue_ok r ?st" by (simp add: queue_ok_def)
  have ah: "ahead ?sc = remaining stream" by (simp add: ahead_def Buffer_def NewScanner_def)
  have s0: "sent ?st = []" by (simp add: sent_def)
  from Read_loop_sent [OF wf pok eof nd run q] ah s0
  have main: "chunks_ok ?C (ChunkBoundary r) (sent st')"
    "prefix (concat (sent st')) (remaining stream)"
    "out = None \<longrightarrow> concat (sent st') = remaining stream" by auto
  have "queue_ok r st'" using run q by (rule Read_loop_queue_ok)
  then have "0 < Concurrency r \<longrightarrow> calls st' = sent st'" by (simp add: queue_ok_def sent_def)
  with main show ?thesis by simp
qed

lemma LastIndex_none: "LastIndex s sep = - 1 \<longleftrightarrow> (\<forall>i. \<not> occurs_at s sep i)"
proof
  assume "LastIndex s sep = - 1"
  then show "\<forall>i. \<not> occurs_at s sep i" using LastIndex_no_later [of s sep] by simp
next
  assume none: "\<forall>i. \<not> occurs_at s sep i"
  have "\<not> 0 \<le> LastIndex s sep" using LastIndex_occurs [of s sep] none by blast
  then show "LastIndex s sep = - 1" using LastIndex_ge [of s sep] by linarith
qed

section \<open>What \<open>ReadFixed\<close> sends\<close>

text \<open>
  The input cut into blocks of \<open>C\<close> bytes; the rest that does not fill a block is
  kept as a last, shorter block when \<open>keep\<close> is set.
\<close>

function chop :: "nat \<Rightarrow> bool \<Rightarrow> string \<Rightarrow> string list" where
  "chop C keep xs =
     (if 0 < C \<and> C \<le> length xs then take C xs # chop C keep (drop C xs)
      else if keep \<and> xs \<noteq> [] then [xs]
      else [])"
  by pat_completeness auto
termination
  by (relation "measure (\<lambda>(C, keep, xs). length xs)") auto

declare chop.simps [simp del]

lemma ReadFull_loop_stop: "ReadFull_loop rd buf n (Some e) = (n, Some e, buf, rd)"
  by (simp add: ReadFull_loop.simps)

lemma ReadFull_loop_spec:
  "n \<le> length buf \<Longrightarrow> err = None \<Longrightarrow> ReadFull_loop rd buf n err = (n', err', buf', rd') \<Longrightarrow>
   n' = n + min (length buf - n) (length (remaining rd)) \<and>
   take n' buf' = take n buf @ take (n' - n) (remaining rd) \<and>
   length buf' = length buf \<and>
   remaining rd' = drop (n' - n) (remaining rd) \<and>
   final rd' = final rd \<and>
   (if n' < length buf then err' = Some (final rd) else err' = None \<or> err' = Some (final rd))"
proof (induction rd buf n err arbitrary: n' err' buf' rd' rule: ReadFull_loop.induct)
  case (1 rd buf n err)
  show ?case
  proof (cases "n < length buf")
    case False
    with "1.prems" show ?thesis by (auto simp: ReadFull_loop.simps)
  next
    case True
    obtain bytes e rd1 where rd: "reader_Read rd (length buf - n) = ((bytes, e), rd1)"
      by (metis prod.exhaust)
    have rem: "bytes @ remaining rd1 = remaining rd" using rd by (rule reader_Read_remaining)
    have fin: "final rd1 = final rd" using rd by (rule reader_Read_final)
    have len: "length bytes \<le> length buf - n" using rd by (rule reader_Read_length)
    define buf1 where "buf1 = take n buf @ bytes @ drop (n + length bytes) buf"
    have lb: "length buf1 = length buf" using len True by (simp add: buf1_def)
    have t1: "take (n + length bytes) buf1 = take n buf @ bytes"
      using True by (simp add: buf1_def)
    have run: "ReadFull_loop rd1 buf1 (n + length bytes) e = (n', err', buf', rd')"
      using "1.prems"(2,3) True rd by (simp add: ReadFull_loop.simps [of rd buf n] buf1_def)
    show ?thesis
    proof (cases e)
      case (Some e')
      then have b: "bytes = remaining rd" "remaining rd1 = []" "e' = final rd"
        using reader_Read_error [of rd "length buf - n" bytes e' rd1] rd by simp_all
      from run Some have r: "n' = n + length bytes" "err' = Some e'" "buf' = buf1" "rd' = rd1"
        by (simp_all add: ReadFull_loop_stop)
      have "min (length buf - n) (length (remaining rd)) = length bytes" using len b(1) by simp
      then show ?thesis using r b t1 lb fin by simp
    next
      case None
      have c: "n < length buf \<and> err = None" using True "1.prems"(2) by simp
      have le1: "n + length bytes \<le> length buf1" using len True lb by simp
      note ih = "1.IH" [OF c rd [symmetric] refl le1 [unfolded buf1_def] None
          run [unfolded buf1_def], folded buf1_def, unfolded lb t1]
      from ih have i1: "n' = n + length bytes +
            min (length buf - (n + length bytes)) (length (remaining rd1))" by blast
      from ih have i2: "take n' buf' = (take n buf @ bytes) @
            take (n' - (n + length bytes)) (remaining rd1)" by blast
      from ih have i3: "length buf' = length buf"
        and i4: "remaining rd' = drop (n' - (n + length bytes)) (remaining rd1)"
        and i5: "final rd' = final rd1"
        and i6: "if n' < length buf then err' = Some (final rd1)
                 else err' = None \<or> err' = Some (final rd1)" by blast+
      have lr: "length (remaining rd) = length bytes + length (remaining rd1)"
        using rem [symmetric] by simp
      have n'eq: "n' = n + min (length buf - n) (length (remaining rd))"
        using i1 lr len True by (simp add: min_def)
      have ge: "n + length bytes \<le> n'" using i1 by simp
      have t2: "take (n' - n) (remaining rd) = bytes @ take (n' - (n + length bytes)) (remaining rd1)"
        using rem [symmetric] ge by simp
      have d: "drop (n' - n) (remaining rd) = drop (n' - (n + length bytes)) (remaining rd1)"
        using rem [symmetric] ge by simp
      have i6': "if n' < length buf then err' = Some (final rd)
                 else err' = None \<or> err' = Some (final rd)"
        using i6 fin by (auto split: if_splits)
      have core: "n' = n + min (length buf - n) (length (remaining rd)) \<and>
          take n' buf' = take n buf @ take (n' - n) (remaining rd) \<and>
          length buf' = length buf \<and>
          remaining rd' = drop (n' - n) (remaining rd) \<and>
          final rd' = final rd"
        using n'eq i2 i3 i4 i5 t2 d fin True by simp
      show ?thesis using core i6' by blast
    qed
  qed
qed

lemma ReadFull_spec:
  assumes "ReadFull rd buf = (n, err, buf', rd')"
  shows "n = min (length buf) (length (remaining rd)) \<and>
         take n buf' = take n (remaining rd) \<and>
         length buf' = length buf \<and>
         remaining rd' = drop n (remaining rd) \<and>
         final rd' = final rd \<and>
         err = (if n = length buf then None
                else if n > 0 \<and> final rd = EOF then Some ErrUnexpectedEOF
                else Some (final rd))"
proof -
  obtain n0 err0 buf0 rd0 where l: "ReadFull_loop rd buf 0 None = (n0, err0, buf0, rd0)"
    by (metis prod.exhaust)
  have "0 \<le> length buf" by simp
  note s = ReadFull_loop_spec [OF this refl l]
  from assms l have "n = n0" "buf' = buf0" "rd' = rd0"
    and "err = (if n0 \<ge> length buf then None
                else if n0 > 0 \<and> err0 = Some EOF then Some ErrUnexpectedEOF else err0)"
    by (auto simp: ReadFull_def split: if_splits)
  then show ?thesis using s by (auto simp: min_def)
qed


text \<open>
  What \<open>ReadFixed\<close> sends for an input \<open>xs\<close> whose source ends with the error \<open>e\<close>,
  and how it ends: the rest is sent when the source ends with \<open>EOF\<close> or reports
  \<open>ErrUnexpectedEOF\<close> itself, and in the second case a chunk is sent even when no
  byte was read for it.
\<close>

definition fixed_sent :: "nat \<Rightarrow> error \<Rightarrow> string \<Rightarrow> string list" where
  "fixed_sent C e xs =
     chop C (e = EOF \<or> e = ErrUnexpectedEOF) xs @
     (if e = ErrUnexpectedEOF \<and> length xs mod C = 0 then [[]] else [])"

definition fixed_out :: "error \<Rightarrow> abort option" where
  "fixed_out e = (if e = EOF \<or> e = ErrUnexpectedEOF then None else Some (Panic_err e))"

lemma send_worker:
  assumes "0 < Concurrency r"
  shows "\<exists>st'. send r c st = Some st'"
  using assms by (simp add: send_def)

lemma ReadFixed_loop_spec:
  assumes "0 < C" and "0 < Concurrency r"
  shows "pool_ok C (run_pool st) \<Longrightarrow> queue_ok r st \<Longrightarrow>
         \<exists>st'. ReadFixed_loop r stream st = Some (fixed_out (final stream), st') \<and>
               sent st' = sent st @ fixed_sent C (final stream) (remaining stream) \<and>
               queue_ok r st'"
proof (induction "length (remaining stream)" arbitrary: stream st rule: less_induct)
  case less
  let ?xs = "remaining stream" and ?e = "final stream"
  from Borrow_ok [OF less.prems(1)] obtain buf p' where
    bor: "Borrow (run_pool st) = Inr (buf, p')" and lbuf: "length buf = C"
    and pok: "pool_ok C p'" by blast
  obtain n err buf' stream' where rf: "ReadFull stream buf = (n, err, buf', stream')"
    by (metis prod.exhaust)
  note spec = ReadFull_spec [OF rf]
  from spec lbuf have n: "n = min C (length ?xs)" and tk: "take n buf' = take n ?xs"
    and lb': "length buf' = C" and rem': "remaining stream' = drop n ?xs"
    and fin': "final stream' = ?e"
    and err: "err = (if n = C then None
                     else if n > 0 \<and> ?e = EOF then Some ErrUnexpectedEOF else Some ?e)"
    by auto
  let ?st1 = "st\<lparr>run_pool := p'\<rparr>"
  let ?c = "\<lparr>readableSize = n, buffer = buf'\<rparr>"
  have q1: "queue_ok r ?st1" using less.prems(2) by (simp add: queue_ok_def)
  have p1: "pool_ok C (run_pool ?st1)" using pok by simp
  obtain st2 where snd: "send r ?c ?st1 = Some st2" using send_worker [OF assms(2)] by blast
  have s2: "sent st2 = sent st @ [take n ?xs]"
    using send_sent(1) [OF snd q1] tk by (simp add: ReadableBytes_def sent_def)
  have q2: "queue_ok r st2" using send_sent(2) [OF snd q1] .
  have p2: "pool_ok C (run_pool st2)" using send_sent(3) [OF snd q1 p1] lb' by simp
  show ?case
  proof (cases "C \<le> length ?xs")
    case True
    then have nC: "n = C" and none: "err = None" using n err by simp_all
    have step: "ReadFixed_loop r stream st = ReadFixed_loop r stream' st2"
      using bor rf none snd by (subst ReadFixed_loop.simps) simp
    have shorter: "length (remaining stream') < length ?xs" using rem' nC True assms(1) by simp
    from less.hyps [OF shorter p2 q2] obtain st' where
      r: "ReadFixed_loop r stream' st2 = Some (fixed_out (final stream'), st')"
      and s: "sent st' = sent st2 @ fixed_sent C (final stream') (remaining stream')"
      and q: "queue_ok r st'" by blast
    have md: "length (drop C ?xs) mod C = length ?xs mod C"
      using True by (simp add: le_mod_geq)
    have "fixed_sent C ?e ?xs = take C ?xs # fixed_sent C ?e (drop C ?xs)"
      using True assms(1) md by (simp add: fixed_sent_def chop.simps [of C _ ?xs])
    then show ?thesis using step r s q s2 fin' rem' nC by simp
  next
    case False
    then have nl: "n = length ?xs" and nlt: "n \<noteq> C" using n by simp_all
    have short: "chop C k ?xs = (if k \<and> ?xs \<noteq> [] then [?xs] else [])" for k
      using False by (simp add: chop.simps [of C k ?xs])
    have md: "length ?xs mod C = length ?xs" using False by simp
    show ?thesis
    proof (cases "?e = EOF")
      case True
      show ?thesis
      proof (cases "?xs = []")
        case True
        with \<open>?e = EOF\<close> nl nlt err have "err = Some EOF" by simp
        then have "ReadFixed_loop r stream st = Some (None, ?st1)"
          using bor rf by (subst ReadFixed_loop.simps) simp
        moreover have "fixed_sent C ?e ?xs = []" using True \<open>?e = EOF\<close> short
          by (simp add: fixed_sent_def)
        ultimately show ?thesis using \<open>?e = EOF\<close> q1 by (simp add: fixed_out_def sent_def)
      next
        case False
        with \<open>?e = EOF\<close> nl nlt err have "err = Some ErrUnexpectedEOF" by simp
        then have "ReadFixed_loop r stream st = Some (None, st2)"
          using bor rf snd by (subst ReadFixed_loop.simps) simp
        moreover have "fixed_sent C ?e ?xs = [?xs]" using False \<open>?e = EOF\<close> short
          by (simp add: fixed_sent_def)
        ultimately show ?thesis using \<open>?e = EOF\<close> q2 s2 nl by (simp add: fixed_out_def)
      qed
    next
      case notEOF: False
      then have e': "err = Some ?e" using err nlt by simp
      show ?thesis
      proof (cases "?e = ErrUnexpectedEOF")
        case True
        then have "ReadFixed_loop r stream st = Some (None, st2)"
          using bor rf snd e' by (subst ReadFixed_loop.simps) simp
        moreover have "fixed_sent C ?e ?xs = [?xs]"
          using True short md by (cases "?xs = []") (simp_all add: fixed_sent_def)
        ultimately show ?thesis using True q2 s2 nl by (simp add: fixed_out_def)
      next
        case False
        then have "ReadFixed_loop r stream st = Some (Some (Panic_err ?e), ?st1)"
          using bor rf e' notEOF by (subst ReadFixed_loop.simps) simp
        moreover have "fixed_sent C ?e ?xs = []" using False notEOF short
          by (simp add: fixed_sent_def)
        ultimately show ?thesis using False notEOF q1 by (simp add: fixed_out_def sent_def)
      qed
    qed
  qed
qed

lemma ReadFixed_spec:
  assumes "0 < ChunkSize r" and "0 < Concurrency r"
  shows "\<exists>st. ReadFixed r stream = Some (fixed_out (final stream), st) \<and>
              calls st = fixed_sent (nat (ChunkSize r)) (final stream) (remaining stream)"
proof -
  let ?st = "\<lparr> run_pool = \<lparr> pool = [], pool_cap = nat (Concurrency r), bufferSize = ChunkSize r \<rparr>,
               queue = [], calls = [] \<rparr>"
  have start: "ReadFixed r stream = ReadFixed_loop r stream ?st"
    using assms by (simp add: ReadFixed_def NewPool_def)
  have "pool_ok (nat (ChunkSize r)) (run_pool ?st)" using assms by (simp add: pool_ok_def)
  moreover have "queue_ok r ?st" by (simp add: queue_ok_def)
  moreover have "0 < nat (ChunkSize r)" using assms by simp
  ultimately obtain st' where
    "ReadFixed_loop r stream ?st = Some (fixed_out (final stream), st')"
    "sent st' = sent ?st @ fixed_sent (nat (ChunkSize r)) (final stream) (remaining stream)"
    "queue_ok r st'"
    using ReadFixed_loop_spec [OF _ assms(2)] by blast
  then show ?thesis using start assms(2) by (auto simp: sent_def queue_ok_def)
qed



lemma Read_no_empty_chunk:
  assumes "Read r stream = (out, st)"
  shows "[] \<notin> set (sent st) \<and> [] \<notin> set (calls st)"
  using Read_sent [OF assms] by (auto simp: chunks_ok_def sent_def)

lemma chop_nonempty: "0 < C \<Longrightarrow> c \<in> set (chop C keep xs) \<Longrightarrow> c \<noteq> []"
proof (induction C keep xs rule: chop.induct)
  case (1 C keep xs)
  from "1.prems"(2) show ?case
  proof (subst (asm) chop.simps, simp split: if_splits)
    assume "C \<le> length xs" and "c = take C xs \<or> c \<in> set (chop C keep (drop C xs))"
    then show "c \<noteq> []" using "1.IH" "1.prems"(1) by auto
  qed
qed

text \<open>
  A source that does not itself report \<open>ErrUnexpectedEOF\<close> never makes \<open>ReadFixed\<close>
  send an empty chunk.
\<close>

lemma ReadFixed_no_empty_chunk:
  assumes "0 < ChunkSize r" and "0 < Concurrency r" and "final stream \<noteq> ErrUnexpectedEOF"
  shows "\<exists>out st. ReadFixed r stream = Some (out, st) \<and> [] \<notin> set (calls st)"
proof -
  from ReadFixed_spec [OF assms(1,2)] obtain st where
    run: "ReadFixed r stream = Some (fixed_out (final stream), st)"
    and c: "calls st = fixed_sent (nat (ChunkSize r)) (final stream) (remaining stream)" by blast
  have "[] \<notin> set (calls st)"
    using c assms(1,3) chop_nonempty [of "nat (ChunkSize r)" "[]"]
    by (auto simp: fixed_sent_def)
  with run show ?thesis by blast
qed

section \<open>\<open>RequireBoundary\<close> and \<open>ChunkBoundaryStart\<close>\<close>

text \<open>
  \<open>bytes.Index(s, sep)\<close>: the index of the first instance of \<open>sep\<close> in \<open>s\<close>, or \<open>-1\<close>.
\<close>

primrec Index_at :: "string \<Rightarrow> string \<Rightarrow> nat \<Rightarrow> int" where
  "Index_at [] sep i = (if sep = [] then int i else - 1)"
| "Index_at (c # cs) sep i =
     (if take (length sep) (c # cs) = sep then int i else Index_at cs sep (Suc i))"

definition Index :: "string \<Rightarrow> string \<Rightarrow> int" where
  "Index s sep = Index_at s sep 0"

text \<open>
  Modelled from the spec: the configuration fields \<open>ChunkBoundaryStart\<close> and
  \<open>RequireBoundary\<close> and the split function that reads them. \<^verbatim>\<open>rip.go\<close> has
  neither (its split function is \<open>ScanChunksWithBoundary\<close> above); only
  \<^verbatim>\<open>rip_test.go\<close> sets the two fields. The definition follows section 4.2 of the
  specification. Without a start sequence: steps 1 to 3 as in the code, and at the
  end of the input with no boundary left the rest is the final chunk, or, when the
  boundary is required, it is consumed without a token. With a start sequence a chunk
  runs from the first start sequence of the window to the end of the last boundary
  after it; bytes before the start are consumed without being emitted, and at the end
  of the input whatever holds no complete bracket is consumed without a token.
\<close>

definition ScanChunksWithBoundary_spec ::
  "ParallelReader \<Rightarrow> string \<Rightarrow> bool \<Rightarrow> string \<Rightarrow> bool \<Rightarrow> split_result" where
  "ScanChunksWithBoundary_spec r boundaryStart requireBoundary data atEOF =
     (if \<not> atEOF \<and> int (length data) < ChunkSize r then (0, None, None)
      else if boundaryStart = [] then
        (let idx = LastIndex data (ChunkBoundary r) in
         if idx > - 1 then
           let boundaryEnd = idx + int (length (ChunkBoundary r)) in
           (boundaryEnd, Some (take (nat boundaryEnd) data), None)
         else if \<not> atEOF then (0, None, None)
         else if requireBoundary then (int (length data), None, None)
         else (0, Some data, Some ErrFinalToken))
      else
        (let first = Index data boundaryStart;
             idx = LastIndex data (ChunkBoundary r) in
         if first > - 1 \<and> idx \<ge> first + int (length boundaryStart) then
           let boundaryEnd = idx + int (length (ChunkBoundary r)) in
           (boundaryEnd, Some (take (nat (boundaryEnd - first)) (drop (nat first) data)), None)
         else if \<not> atEOF then (0, None, None)
         else (int (length data), None, None)))"

lemma Index_at_range: "- 1 \<le> Index_at s sep i"
  by (induction s arbitrary: i) auto

lemma Index_at_found:
  "Index_at s sep i = int j \<Longrightarrow>
   i \<le> j \<and> j - i + length sep \<le> length s \<and> take (length sep) (drop (j - i) s) = sep"
proof (induction s arbitrary: i)
  case Nil
  then show ?case by (auto split: if_splits)
next
  case (Cons c cs)
  show ?case
  proof (cases "take (length sep) (c # cs) = sep")
    case True
    then have "length (take (length sep) (c # cs)) = length sep" by simp
    then have "length sep \<le> length (c # cs)" by (simp add: min_def split: if_splits)
    with True Cons.prems show ?thesis by simp
  next
    case False
    with Cons.prems have "Index_at cs sep (Suc i) = int j" by simp
    from Cons.IH [OF this] have "Suc i \<le> j" "j - Suc i + length sep \<le> length cs"
      "take (length sep) (drop (j - Suc i) cs) = sep" by auto
    moreover from \<open>Suc i \<le> j\<close> have "j - i = Suc (j - Suc i)" by simp
    ultimately show ?thesis by simp
  qed
qed

lemma Index_occurs: "Index s sep = int j \<Longrightarrow> occurs_at s sep j"
  using Index_at_found [of s sep 0 j] by (simp add: Index_def occurs_at_def)

lemma spec_split_cases:
  assumes "ScanChunksWithBoundary_spec r bs rb data atEOF = (adv, Some t, e)"
  shows "length t \<le> length data \<and>
         (data \<noteq> [] \<and> \<not> atEOF \<longrightarrow> 0 < adv) \<and>
         (bs \<noteq> [] \<longrightarrow> prefix bs t \<and> suffix (ChunkBoundary r) t
              \<and> length bs + length (ChunkBoundary r) \<le> length t)"
proof (cases "bs = []")
  case True
  then have "ScanChunksWithBoundary r data atEOF = (adv, Some t, e)"
    using assms
    by (auto simp: ScanChunksWithBoundary_spec_def ScanChunksWithBoundary_def Let_def
        split: if_splits)
  note src = this
  have "0 < adv" if "data \<noteq> []" and "\<not> atEOF"
  proof -
    from split_cases [OF src] that(2) have "e = None" by auto
    with src that show ?thesis
      using ScanChunksWithBoundary_progress [of r] by (auto simp: progress_def)
  qed
  then show ?thesis using source_token_length [OF src] True by simp
next
  case False
  let ?b = "ChunkBoundary r"
  from assms False have f0: "0 \<le> Index data bs"
    and ge: "Index data bs + int (length bs) \<le> LastIndex data ?b"
    and adv: "adv = LastIndex data ?b + int (length ?b)"
    and t: "t = take (nat (LastIndex data ?b + int (length ?b) - Index data bs))
                  (drop (nat (Index data bs)) data)"
    by (auto simp: ScanChunksWithBoundary_spec_def Let_def split: if_splits)
  obtain f where f: "Index data bs = int f" using f0 nonneg_int_cases by blast
  from ge f have "0 \<le> LastIndex data ?b" by simp
  then obtain i where i: "LastIndex data ?b = int i" using nonneg_int_cases by blast
  have fi: "f + length bs \<le> i" using ge f i by simp
  have occ_s: "occurs_at data bs f" using f by (rule Index_occurs)
  have occ_e: "occurs_at data ?b i" using LastIndex_occurs [of data ?b] i by simp
  have il: "i + length ?b \<le> length data" using occ_e by (simp add: occurs_at_def)
  have "nat (int i + int (length ?b) - int f) = i - f + length ?b" using fi by simp
  then have t': "t = take (i - f + length ?b) (drop f data)" using t f i by simp
  have lt: "length t = i - f + length ?b" using t' il fi by simp
  have e1: "take (i - f + length ?b) (drop f data) =
      take (i - f) (drop f data) @ take (length ?b) (drop (i - f) (drop f data))"
    by (rule take_add)
  have e2: "drop (i - f) (drop f data) = drop i data" using fi by simp
  have "t = take (i - f) (drop f data) @ take (length ?b) (drop i data)"
    unfolding t' e1 e2 by (rule refl)
  then have suf: "suffix ?b t" using occ_e by (simp add: occurs_at_def suffix_def)
  have "i - f + length ?b = length bs + (i - f - length bs + length ?b)" using fi by simp
  then have "t = take (length bs) (drop f data) @
      take (i - f - length bs + length ?b) (drop (length bs) (drop f data))"
    using t' by (metis take_add)
  then have pre: "prefix bs t" using occ_s by (simp add: occurs_at_def prefix_def)
  have "0 < i" using fi False by (cases bs) auto
  then have "0 < adv" using adv i by simp
  moreover have "length t \<le> length data" using lt il fi by linarith
  moreover have "length bs + length ?b \<le> length t" using lt fi by linarith
  ultimately show ?thesis using suf pre by simp
qed

lemma spec_split_progress: "progress (ScanChunksWithBoundary_spec r bs rb)"
  unfolding progress_def using spec_split_cases [of r bs rb] by blast

lemma Read_loop_spec_rank:
  "(res, sc') = Scan (ScanChunksWithBoundary_spec r bs rb) sc \<Longrightarrow> res = Returns True \<Longrightarrow>
   read_rank sc' < read_rank sc"
  using Scan_read_rank [of "ScanChunksWithBoundary_spec r bs rb" sc sc'] spec_split_progress
  by simp

text \<open>
  Modelled from the spec: \<open>Read\<close> with the two fields. It is the loop of \<open>Read\<close> of
  \<^verbatim>\<open>rip.go\<close>, with the split function above in the place of
  \<open>ScanChunksWithBoundary\<close>.
\<close>

function Read_loop_spec ::
  "ParallelReader \<Rightarrow> string \<Rightarrow> bool \<Rightarrow> scanner \<Rightarrow> run_state \<Rightarrow> abort option \<times> run_state" where
  "Read_loop_spec r bs rb sc st =
     (case Scan (ScanChunksWithBoundary_spec r bs rb) sc of
        (Panics m, sc') \<Rightarrow> (Some (Panic_msg m), st)
      | (Returns False, sc') \<Rightarrow>
          (case Err sc' of
             Some e \<Rightarrow> (Some (Panic_err e), st)
           | None \<Rightarrow> (None, st))
      | (Returns True, sc') \<Rightarrow>
          (case Borrow (run_pool st) of
             Inl a \<Rightarrow> (Some a, st)
           | Inr (buf, p') \<Rightarrow>
               if length (Bytes sc') > 0 then
                 (case copy_bytes buf (Bytes sc') of
                    (n, buf') \<Rightarrow>
                      (case send r \<lparr>readableSize = n, buffer = buf'\<rparr> (st\<lparr>run_pool := p'\<rparr>) of
                         None \<Rightarrow> (Some Blocked, st\<lparr>run_pool := p'\<rparr>)
                       | Some st' \<Rightarrow> Read_loop_spec r bs rb sc' st'))
               else Read_loop_spec r bs rb sc' (st\<lparr>run_pool := p'\<rparr>)))"
  by pat_completeness auto
termination
  by (relation "measure (\<lambda>(r, bs, rb, sc, st). read_rank sc)")
     (auto intro: Read_loop_spec_rank)

declare Read_loop_spec.simps [simp del]

definition Read_spec ::
  "ParallelReader \<Rightarrow> string \<Rightarrow> bool \<Rightarrow> reader \<Rightarrow> abort option \<times> run_state" where
  "Read_spec r bs rb stream =
     (case NewPool (Concurrency r) (ChunkSize r) of
        Inl a \<Rightarrow> (Some a, \<lparr> run_pool = \<lparr> pool = [], pool_cap = 0, bufferSize = ChunkSize r \<rparr>,
                            queue = [], calls = [] \<rparr>)
      | Inr p \<Rightarrow>
          (case make_bytes (ChunkSize r) of
             Inl a \<Rightarrow> (Some a, \<lparr> run_pool = p, queue = [], calls = [] \<rparr>)
           | Inr scanBuf \<Rightarrow>
               Read_loop_spec r bs rb (Buffer (NewScanner stream) (length scanBuf) (ChunkSize r))
                 \<lparr> run_pool = p, queue = [], calls = [] \<rparr>))"

lemma spec_split_source:
  "ScanChunksWithBoundary_spec r [] False = ScanChunksWithBoundary r"
  by (intro ext) (simp add: ScanChunksWithBoundary_spec_def ScanChunksWithBoundary_def)




text \<open>
  Evaluating \<open>Read\<close> on a given input by rewriting, with buffers kept as
  \<open>replicate\<close> terms so that a \<open>ChunkSize\<close> of 65536 is no obstacle.
\<close>

lemma copy_bytes_replicate:
  "length t \<le> n \<Longrightarrow> copy_bytes (replicate n c) t = (length t, t @ replicate (n - length t) c)"
  by (simp add: copy_bytes_def Let_def min_def)

lemma copy_bytes_Nil: "copy_bytes dst [] = (0, dst)"
  by (simp add: copy_bytes_def)

lemma copy_bytes_Cons:
  "copy_bytes (x # xs) (y # ys) = (case copy_bytes xs ys of (n, b) \<Rightarrow> (Suc n, y # b))"
  by (simp add: copy_bytes_def Let_def)

lemmas Read_eval =
  Read_def NewPool_def make_bytes_def Buffer_def NewScanner_def MaxScanTokenSize_def
  strings_NewReader_def Read_loop.simps Scan_def Scan_loop.simps scan_split_def scan_fill_def
  read_more.simps reader_Read_def s_end_def ScanChunksWithBoundary_def LastIndex_def
  advance_def setErr_def Err_def Bytes_def Borrow_def Return_def send_def ReadableBytes_def
  copy_bytes_replicate copy_bytes_Nil copy_bytes_Cons
  maxConsecutiveEmptyReads_def maxInt_def startBufSize_def Let_def

section \<open>The claims\<close>

text \<open>
  C1. The boundary scanner in end-only mode: for every window \<open>data\<close> and flag
  \<open>atEOF\<close>, when the input is not at its end and the window is shorter than
  \<open>ChunkSize\<close> it advances 0 bytes and emits no token; otherwise, when the last
  occurrence of the boundary in the window is at offset \<open>i\<close>, it emits exactly
  \<open>data[0 .. i + len(boundary))\<close> and consumes exactly \<open>i + len(boundary)\<close> bytes.
\<close>

theorem ScanChunksWithBoundary_end_only:
  "(\<not> atEOF \<and> int (length data) < ChunkSize r \<longrightarrow>
      ScanChunksWithBoundary r data atEOF = (0, None, None)) \<and>
   (\<not> (\<not> atEOF \<and> int (length data) < ChunkSize r) \<longrightarrow>
      (\<forall>i. last_occurrence data (ChunkBoundary r) i \<longrightarrow>
         ScanChunksWithBoundary r data atEOF =
           (int (i + length (ChunkBoundary r)),
            Some (take (i + length (ChunkBoundary r)) data),
            None)))"
proof (intro conjI impI allI)
  assume "\<not> atEOF \<and> int (length data) < ChunkSize r"
  then show "ScanChunksWithBoundary r data atEOF = (0, None, None)"
    by (simp add: ScanChunksWithBoundary_def)
next
  fix i
  assume big: "\<not> (\<not> atEOF \<and> int (length data) < ChunkSize r)"
    and "last_occurrence data (ChunkBoundary r) i"
  then have idx: "LastIndex data (ChunkBoundary r) = int i"
    by (simp add: LastIndex_last_occurrence)
  have "nat (int i + int (length (ChunkBoundary r))) = i + length (ChunkBoundary r)"
    by simp
  with big idx show "ScanChunksWithBoundary r data atEOF =
      (int (i + length (ChunkBoundary r)), Some (take (i + length (ChunkBoundary r)) data), None)"
    by (simp add: ScanChunksWithBoundary_def Let_def)
qed

theorem ScanChunksWithBoundary_end_only_witness:
  "ScanChunksWithBoundary
     \<lparr> Concurrency = 4, ChunkSize = 6, ChunkBoundary = [CHR 0x0A], chunks_cap = 4 \<rparr>
     ''ab'' False = (0, None, None) \<and>
   last_occurrence ''abc\<newline>def\<newline>xy'' [CHR 0x0A] 7 \<and>
   ScanChunksWithBoundary
     \<lparr> Concurrency = 4, ChunkSize = 6, ChunkBoundary = [CHR 0x0A], chunks_cap = 4 \<rparr>
     ''abc\<newline>def\<newline>xy'' False = (8, Some ''abc\<newline>def\<newline>'', None)"
proof -
  let ?r = "\<lparr> Concurrency = 4, ChunkSize = 6, ChunkBoundary = [CHR 0x0A], chunks_cap = 4 \<rparr>"
  have lo: "last_occurrence ''abc\<newline>def\<newline>xy'' [CHR 0x0A] 7"
    by (simp add: LastIndex_last_occurrence LastIndex_def)
  show ?thesis
    using lo ScanChunksWithBoundary_end_only [of False "''ab''" ?r]
      ScanChunksWithBoundary_end_only [of False "''abc\<newline>def\<newline>xy''" ?r]
    by simp
qed







text \<open>
  C4. A chunk may hold several records, so the boundary also stands inside chunks.
  What \<open>Read\<close> keeps is that no chunk ends inside a record: every chunk it emits
  either ends with the boundary or holds no occurrence of the boundary at all (the
  unterminated rest of the input), and only the last chunk can be of the second
  kind.
\<close>

theorem Read_chunks_end_on_boundary:
  assumes "Read r stream = (out, st)"
  shows "(\<forall>c \<in> set (sent st).
            suffix (ChunkBoundary r) c \<or> (\<forall>i. \<not> occurs_at c (ChunkBoundary r) i)) \<and>
         (\<forall>c \<in> set (butlast (sent st)). suffix (ChunkBoundary r) c) \<and>
         (0 < Concurrency r \<longrightarrow> calls st = sent st)"
  using Read_sent [OF assms] by (auto simp: chunks_ok_def LastIndex_none)

theorem Read_chunks_end_on_boundary_witness:
  "calls (snd (Read \<lparr> Concurrency = 4, ChunkSize = 100, ChunkBoundary = ''|SPLIT|'',
                     chunks_cap = 4 \<rparr>
          (strings_NewReader ''abcdefg|SPLIT|hijklmnop|SPLIT|hello''))) =
     [''abcdefg|SPLIT|hijklmnop|SPLIT|'', ''hello''] \<and>
   suffix ''|SPLIT|'' ''abcdefg|SPLIT|hijklmnop|SPLIT|'' \<and>
   LastIndex ''hello'' ''|SPLIT|'' = - 1"
proof -
  let ?r = "\<lparr> Concurrency = 4, ChunkSize = 100, ChunkBoundary = ''|SPLIT|'', chunks_cap = 4 \<rparr>"
  let ?s = "strings_NewReader ''abcdefg|SPLIT|hijklmnop|SPLIT|hello''"
  have s: "sent (snd (Read ?r ?s)) = [''abcdefg|SPLIT|hijklmnop|SPLIT|'', ''hello'']"
    by code_simp
  have "Read ?r ?s = (fst (Read ?r ?s), snd (Read ?r ?s))" by simp
  from Read_chunks_end_on_boundary [OF this] s
  have "calls (snd (Read ?r ?s)) = [''abcdefg|SPLIT|hijklmnop|SPLIT|'', ''hello'']"
    and "suffix ''|SPLIT|'' ''abcdefg|SPLIT|hijklmnop|SPLIT|''"
    by simp_all
  moreover have "LastIndex ''hello'' ''|SPLIT|'' = - 1" by (simp add: LastIndex_def)
  ultimately show ?thesis by simp
qed

theorem Read_boundary_inside_chunk_counterexample:
  "calls (snd (Read \<lparr> Concurrency = 4, ChunkSize = 65536, ChunkBoundary = [CHR 0x0A],
                     chunks_cap = 4 \<rparr>
          (strings_NewReader ''abc\<newline>def\<newline>''))) = [''abc\<newline>def\<newline>''] \<and>
   occurs_at ''abc\<newline>def\<newline>'' [CHR 0x0A] 3 \<and>
   3 + length [CHR 0x0A] < length ''abc\<newline>def\<newline>''"
proof -
  have "calls (snd (Read \<lparr> Concurrency = 4, ChunkSize = 65536, ChunkBoundary = [CHR 0x0A],
                     chunks_cap = 4 \<rparr>
          (strings_NewReader ''abc\<newline>def\<newline>''))) = [''abc\<newline>def\<newline>'']"
    by (simp add: Read_eval)
  then show ?thesis by (simp add: occurs_at_def)
qed



text \<open>
  C6. The input \<open>"abcdefg|SPLIT|hijklmnop|SPLIT|hello"\<close> with the boundary
  \<open>"|SPLIT|"\<close>. \<open>Read\<close> of \<^verbatim>\<open>rip.go\<close>, which has no \<open>RequireBoundary\<close>, returns
  after the two chunks \<open>"abcdefg|SPLIT|hijklmnop|SPLIT|"\<close> and \<open>"hello"\<close>, with a
  \<open>ChunkSize\<close> of 65536 and of 100, and so does the \<open>Read\<close> of the specification
  when the boundary is not required. When it is required, the \<open>Read\<close> of the
  specification returns after the one chunk \<open>"abcdefg|SPLIT|hijklmnop|SPLIT|"\<close>: the
  rest \<open>"hello"\<close> is dropped.
\<close>

theorem Read_RequireBoundary_scenario:
  "fst (Read \<lparr> Concurrency = 4, ChunkSize = 65536, ChunkBoundary = ''|SPLIT|'', chunks_cap = 4 \<rparr>
        (strings_NewReader ''abcdefg|SPLIT|hijklmnop|SPLIT|hello'')) = None \<and>
   calls (snd (Read \<lparr> Concurrency = 4, ChunkSize = 65536, ChunkBoundary = ''|SPLIT|'',
                     chunks_cap = 4 \<rparr>
        (strings_NewReader ''abcdefg|SPLIT|hijklmnop|SPLIT|hello''))) =
     [''abcdefg|SPLIT|hijklmnop|SPLIT|'', ''hello''] \<and>
   fst (Read \<lparr> Concurrency = 4, ChunkSize = 100, ChunkBoundary = ''|SPLIT|'', chunks_cap = 4 \<rparr>
        (strings_NewReader ''abcdefg|SPLIT|hijklmnop|SPLIT|hello'')) = None \<and>
   calls (snd (Read \<lparr> Concurrency = 4, ChunkSize = 100, ChunkBoundary = ''|SPLIT|'',
                     chunks_cap = 4 \<rparr>
        (strings_NewReader ''abcdefg|SPLIT|hijklmnop|SPLIT|hello''))) =
     [''abcdefg|SPLIT|hijklmnop|SPLIT|'', ''hello''] \<and>
   Read_spec \<lparr> Concurrency = 4, ChunkSize = 100, ChunkBoundary = ''|SPLIT|'', chunks_cap = 4 \<rparr>
        [] False (strings_NewReader ''abcdefg|SPLIT|hijklmnop|SPLIT|hello'') =
     Read \<lparr> Concurrency = 4, ChunkSize = 100, ChunkBoundary = ''|SPLIT|'', chunks_cap = 4 \<rparr>
        (strings_NewReader ''abcdefg|SPLIT|hijklmnop|SPLIT|hello'') \<and>
   fst (Read_spec \<lparr> Concurrency = 4, ChunkSize = 100, ChunkBoundary = ''|SPLIT|'',
                    chunks_cap = 4 \<rparr>
        [] True (strings_NewReader ''abcdefg|SPLIT|hijklmnop|SPLIT|hello'')) = None \<and>
   calls (snd (Read_spec \<lparr> Concurrency = 4, ChunkSize = 100, ChunkBoundary = ''|SPLIT|'',
                          chunks_cap = 4 \<rparr>
        [] True (strings_NewReader ''abcdefg|SPLIT|hijklmnop|SPLIT|hello''))) =
     [''abcdefg|SPLIT|hijklmnop|SPLIT|'']"
proof -
  have big: "fst (Read \<lparr> Concurrency = 4, ChunkSize = 65536, ChunkBoundary = ''|SPLIT|'',
                         chunks_cap = 4 \<rparr>
        (strings_NewReader ''abcdefg|SPLIT|hijklmnop|SPLIT|hello'')) = None \<and>
   calls (snd (Read \<lparr> Concurrency = 4, ChunkSize = 65536, ChunkBoundary = ''|SPLIT|'',
                     chunks_cap = 4 \<rparr>
        (strings_NewReader ''abcdefg|SPLIT|hijklmnop|SPLIT|hello''))) =
     [''abcdefg|SPLIT|hijklmnop|SPLIT|'', ''hello'']"
    by (simp add: Read_eval)
  have small: "fst (Read \<lparr> Concurrency = 4, ChunkSize = 100, ChunkBoundary = ''|SPLIT|'',
                           chunks_cap = 4 \<rparr>
        (strings_NewReader ''abcdefg|SPLIT|hijklmnop|SPLIT|hello'')) = None \<and>
   calls (snd (Read \<lparr> Concurrency = 4, ChunkSize = 100, ChunkBoundary = ''|SPLIT|'',
                     chunks_cap = 4 \<rparr>
        (strings_NewReader ''abcdefg|SPLIT|hijklmnop|SPLIT|hello''))) =
     [''abcdefg|SPLIT|hijklmnop|SPLIT|'', ''hello''] \<and>
   Read_spec \<lparr> Concurrency = 4, ChunkSize = 100, ChunkBoundary = ''|SPLIT|'', chunks_cap = 4 \<rparr>
        [] False (strings_NewReader ''abcdefg|SPLIT|hijklmnop|SPLIT|hello'') =
     Read \<lparr> Concurrency = 4, ChunkSize = 100, ChunkBoundary = ''|SPLIT|'', chunks_cap = 4 \<rparr>
        (strings_NewReader ''abcdefg|SPLIT|hijklmnop|SPLIT|hello'') \<and>
   fst (Read_spec \<lparr> Concurrency = 4, ChunkSize = 100, ChunkBoundary = ''|SPLIT|'',
                    chunks_cap = 4 \<rparr>
        [] True (strings_NewReader ''abcdefg|SPLIT|hijklmnop|SPLIT|hello'')) = None \<and>
   calls (snd (Read_spec \<lparr> Concurrency = 4, ChunkSize = 100, ChunkBoundary = ''|SPLIT|'',
                          chunks_cap = 4 \<rparr>
        [] True (strings_NewReader ''abcdefg|SPLIT|hijklmnop|SPLIT|hello''))) =
     [''abcdefg|SPLIT|hijklmnop|SPLIT|'']"
    by code_simp
  show ?thesis using small big by blast
qed



text \<open>
  C8. \<open>Pool.Borrow\<close> and \<open>Pool.Return\<close> always return (each is one \<open>select\<close> with a
  \<open>default\<close> case, so neither waits): on a pool whose buffer size is not negative,
  \<open>Borrow\<close> never fails, hands out the oldest pooled buffer when there is one and
  otherwise a fresh buffer of \<open>bufferSize\<close> bytes, leaving the pool as it was;
  \<open>Return\<close> stores the buffer when the pool holds fewer buffers than its capacity
  and otherwise leaves the pool unchanged. The pool \<open>Read\<close> and \<open>ReadFixed\<close> make
  has capacity \<open>Concurrency\<close> and buffer size \<open>ChunkSize\<close>.
\<close>

theorem Pool_Borrow_Return:
  "(0 \<le> bufferSize p \<longrightarrow>
      (\<exists>c p'. Borrow p = Inr (c, p') \<and>
         (pool p \<noteq> [] \<longrightarrow> c = hd (pool p) \<and> pool p' = tl (pool p)) \<and>
         (pool p = [] \<longrightarrow> c = replicate (nat (bufferSize p)) (CHR 0x00) \<and> p' = p) \<and>
         pool_cap p' = pool_cap p \<and> bufferSize p' = bufferSize p)) \<and>
   (length (pool p) < pool_cap p \<longrightarrow> Return p b = p\<lparr>pool := pool p @ [b]\<rparr>) \<and>
   (\<not> length (pool p) < pool_cap p \<longrightarrow> Return p b = p) \<and>
   (0 \<le> Concurrency r \<longrightarrow>
      NewPool (Concurrency r) (ChunkSize r) =
        Inr \<lparr> pool = [], pool_cap = nat (Concurrency r), bufferSize = ChunkSize r \<rparr>)"
  by (cases "pool p") (auto simp: Borrow_def Return_def NewPool_def make_bytes_def)

theorem Pool_Borrow_Return_witness:
  "Borrow \<lparr> pool = [], pool_cap = 2, bufferSize = 3 \<rparr> =
     Inr ([CHR 0x00, CHR 0x00, CHR 0x00], \<lparr> pool = [], pool_cap = 2, bufferSize = 3 \<rparr>) \<and>
   Borrow \<lparr> pool = [''abc'', ''def''], pool_cap = 2, bufferSize = 3 \<rparr> =
     Inr (''abc'', \<lparr> pool = [''def''], pool_cap = 2, bufferSize = 3 \<rparr>) \<and>
   Return \<lparr> pool = [''abc''], pool_cap = 2, bufferSize = 3 \<rparr> ''def'' =
     \<lparr> pool = [''abc'', ''def''], pool_cap = 2, bufferSize = 3 \<rparr> \<and>
   Return \<lparr> pool = [''abc'', ''def''], pool_cap = 2, bufferSize = 3 \<rparr> ''ghi'' =
     \<lparr> pool = [''abc'', ''def''], pool_cap = 2, bufferSize = 3 \<rparr> \<and>
   NewPool 2 3 = Inr \<lparr> pool = [], pool_cap = 2, bufferSize = 3 \<rparr>"
  using Pool_Borrow_Return [of "\<lparr> pool = [], pool_cap = 2, bufferSize = 3 \<rparr>" "''x''"
      "\<lparr> Concurrency = 2, ChunkSize = 3, ChunkBoundary = [CHR 0x0A], chunks_cap = 2 \<rparr>"]
    Pool_Borrow_Return [of "\<lparr> pool = [''abc'', ''def''], pool_cap = 2, bufferSize = 3 \<rparr>" "''ghi''" r]
    Pool_Borrow_Return [of "\<lparr> pool = [''abc''], pool_cap = 2, bufferSize = 3 \<rparr>" "''def''" r]
  by (auto simp: numeral_3_eq_3)

text \<open>
  C9. The capacity of the queue is fixed by \<open>NewParallelReader\<close> from the number of
  CPUs; a later change of \<open>Concurrency\<close> does not reach it. On a machine with 4
  CPUs, a reader whose \<open>Concurrency\<close> is then set to 10 enters \<open>Read\<close> with a queue
  of capacity 4, while the pool that \<open>Read\<close> makes has capacity 10.
\<close>

theorem queue_capacity_not_Concurrency:
  "chunks_cap ((NewParallelReader 4)\<lparr>Concurrency := 10\<rparr>) = 4 \<and>
   Concurrency ((NewParallelReader 4)\<lparr>Concurrency := 10\<rparr>) = 10 \<and>
   NewPool (Concurrency ((NewParallelReader 4)\<lparr>Concurrency := 10\<rparr>))
           (ChunkSize ((NewParallelReader 4)\<lparr>Concurrency := 10\<rparr>)) =
     Inr \<lparr> pool = [], pool_cap = 10, bufferSize = 65536 \<rparr>"
  by (simp add: NewParallelReader_def NewPool_def)

text \<open>
  C10. \<open>Read\<close> never sends an empty chunk (\<open>Read_no_empty_chunk\<close>), and neither
  does \<open>ReadFixed\<close> on most sources (\<open>ReadFixed_no_empty_chunk\<close>). But
  \<open>ReadFixed\<close> does when the source itself reports \<open>io.ErrUnexpectedEOF\<close> at the
  start of a buffer: \<open>io.ReadFull\<close> passes the error on with 0 bytes read, and
  \<open>ReadFixed\<close> takes it for the short last read and sends the chunk. Here the source
  holds 4 bytes and then reports the error; the callback is called with \<open>"abcd"\<close> and
  then with an empty chunk.
\<close>

theorem ReadFixed_sends_empty_chunk:
  "\<exists>st. ReadFixed \<lparr> Concurrency = 2, ChunkSize = 4, ChunkBoundary = [CHR 0x0A], chunks_cap = 2 \<rparr>
          \<lparr> remaining = ''abcd'', reads = [], final = ErrUnexpectedEOF, eager = False \<rparr> = Some (None, st) \<and>
        calls st = [''abcd'', []]"
proof -
  have "fixed_sent 4 ErrUnexpectedEOF ''abcd'' = [''abcd'', []]"
    unfolding fixed_sent_def by code_simp
  then show ?thesis
    using ReadFixed_spec [of "\<lparr> Concurrency = 2, ChunkSize = 4, ChunkBoundary = [CHR 0x0A],
                                chunks_cap = 2 \<rparr>"
        "\<lparr> remaining = ''abcd'', reads = [], final = ErrUnexpectedEOF, eager = False \<rparr>"]
    by (simp add: fixed_out_def)
qed

end
